theory Spec2Isabelle
  imports Main "HOL-Library.Word"
begin

unbundle bit_operations_syntax

section \<open>The menu engine of menu.c: data model\<close>

text \<open>
  Pointers to menu items are modelled as optional addresses, \<open>None\<close> being \<open>NULL\<close>.
  An address names one \<open>menu_item_t\<close> object: in the static build the index into
  \<open>s_menu_items\<close>, in the dynamic build the number of the block \<open>malloc\<close> returned.
  A callback (a pointer to a \<open>void (void)\<close> function) is an optional identifier of the
  function it points to.
\<close>

type_synonym addr = nat
type_synonym ptr = "addr option"
type_synonym menu_item_callback_t = "nat option"

text \<open>menu.h\<close>

definition MENU_ITEM_TITLE_LEN :: nat where
  "MENU_ITEM_TITLE_LEN = 0x10"

definition MENU_SIZE :: nat where
  "MENU_SIZE = 0x20"

definition ENCODER_INPUT_FILTER :: "32 word" where
  "ENCODER_INPUT_FILTER = 2"

datatype usage_memory = MENU_USAGE_STATIC_MEMORY | MENU_USAGE_DYNAMIC_MEMORY

text \<open>\<open>MENU_STATIC_MEMORY\<close> is 0 and \<open>MENU_DYNAMIC_MEMORY\<close> is 1 in menu.h, so the
  preprocessor selects the dynamic build.\<close>

definition MENU_USAGE_MEMORY :: usage_memory where
  "MENU_USAGE_MEMORY = MENU_USAGE_DYNAMIC_MEMORY"

definition MENU_FLAG_GOTO_PARENT :: "8 word" where
  "MENU_FLAG_GOTO_PARENT = 0x80"

definition MENU_FLAG_EDIT_DATA :: "8 word" where
  "MENU_FLAG_EDIT_DATA = 0x40"

definition MENU_FLAG_GOTO_CHILD :: "8 word" where
  "MENU_FLAG_GOTO_CHILD = 0x20"

definition MNUE_FLAG_GOTO_CBFUNC :: "8 word" where
  "MNUE_FLAG_GOTO_CBFUNC = 0x10"

text \<open>
  \<open>rotenc_data_t\<close>. The fields are prefixed because \<open>current\<close> and \<open>prev\<close> are also
  fields of the handle and of an item. \<open>rot_delta\<close> is the \<open>int32_t\<close> field: a 32-bit
  word read through \<open>sint\<close>.
\<close>

record rotenc_data_t =
  rot_current :: "32 word"
  rot_prev :: "32 word"
  rot_delta :: "32 word"

text \<open>\<open>menu_item_t\<close>. \<open>title\<close> is the buffer \<open>char title[MENU_ITEM_TITLE_LEN]\<close>, byte
  by byte.\<close>

record menu_item_t =
  title :: "char list"
  prev :: ptr
  "next" :: ptr
  folowing :: ptr
  parent :: ptr
  child :: ptr
  callback :: menu_item_callback_t
  data :: "32 word"
  flags :: "8 word"

text \<open>What the engine does to the outside world: a call of \<open>printMenu\<close> with the two
  title buffers, or a call of an item's callback. What a callback does is code outside
  the engine; the model records that it ran.\<close>

datatype effect = PrintMenu "char list" "char list" | Callback nat

text \<open>
  The state of the program: the fields of \<open>s_menu_handle\<close> (\<open>rotenc\<close>, \<open>current\<close>,
  \<open>start\<close>, and \<open>static_array_pos\<close> of the static build), the memory that holds the
  items (\<open>s_menu_items\<close> in the static build, the heap blocks in the dynamic build), the
  heap's bookkeeping (\<open>heap_used\<close> blocks handed out by \<open>malloc\<close>, \<open>heap_avail\<close> blocks
  it can still hand out, the blocks passed to \<open>free\<close> in order), and the effects so far.
\<close>

record menu_state =
  rotenc :: rotenc_data_t
  current :: ptr
  start :: ptr
  static_array_pos :: "8 word"
  mem :: "addr \<Rightarrow> menu_item_t"
  heap_used :: nat
  heap_avail :: nat
  freed :: "addr list"
  effects :: "effect list"

text \<open>The build configuration: which storage the preprocessor selects and the size of
  the static array. \<open>menu_h\<close> is the configuration menu.h sets.\<close>

record menu_config =
  usage_memory :: usage_memory
  menu_size :: nat

definition menu_h :: menu_config where
  "menu_h = \<lparr>usage_memory = MENU_USAGE_MEMORY, menu_size = MENU_SIZE\<rparr>"

text \<open>Dereferencing \<open>NULL\<close>, reading a released block and releasing a block twice end
  the program; the model returns them as values.\<close>

datatype fault = NullDereference | UseAfterFree | DoubleFree

section \<open>Navigation\<close>

text \<open>\<open>s_display_menu\<close>: \<open>printMenu(current->title, current->next->title)\<close>.\<close>

definition s_display_menu :: "menu_state \<Rightarrow> fault + menu_state" where
  "s_display_menu st =
     (case current st of
        None \<Rightarrow> Inl NullDereference
      | Some c \<Rightarrow>
          (case next (mem st c) of
             None \<Rightarrow> Inl NullDereference
           | Some n \<Rightarrow>
               Inr (st\<lparr>effects := effects st @
                     [PrintMenu (title (mem st c)) (title (mem st n))]\<rparr>)))"

text \<open>\<open>s_menu_position_handling\<close>\<close>

definition s_menu_position_handling :: "menu_state \<Rightarrow> fault + menu_state" where
  "s_menu_position_handling st =
     (if 0 < sint (rot_delta (rotenc st)) then
        (case current st of
           None \<Rightarrow> Inl NullDereference
         | Some c \<Rightarrow> s_display_menu (st\<lparr>current := next (mem st c)\<rparr>))
      else if sint (rot_delta (rotenc st)) < 0 then
        (case current st of
           None \<Rightarrow> Inl NullDereference
         | Some c \<Rightarrow> s_display_menu (st\<lparr>current := prev (mem st c)\<rparr>))
      else s_display_menu st)"

text \<open>
  \<open>s_rotary_encoder_callback\<close>. The casts to \<open>int\<close> and the \<open>int\<close> subtraction are
  two's complement arithmetic on 32 bits; \<open>rotenc.current += delta\<close> converts \<open>delta\<close>
  back to \<open>uint32_t\<close>. The division of the reading is by the literal 2, as in the source.
\<close>

definition rotenc_accept :: "32 word \<Rightarrow> rotenc_data_t \<Rightarrow> rotenc_data_t" where
  "rotenc_accept cur r =
     \<lparr>rot_current = rot_current r + (cur div 2 - rot_current r),
      rot_prev = rot_current r,
      rot_delta = cur div 2 - rot_current r\<rparr>"

definition s_rotary_encoder_callback :: "32 word \<Rightarrow> menu_state \<Rightarrow> fault + menu_state" where
  "s_rotary_encoder_callback cur st =
     (if (cur div ENCODER_INPUT_FILTER) * ENCODER_INPUT_FILTER \<noteq> cur then Inr st
      else
        (case current st of
           None \<Rightarrow> Inl NullDereference
         | Some c \<Rightarrow>
             (case callback (mem st c) of
                Some f \<Rightarrow>
                  Inr (st\<lparr>rotenc := rotenc_accept cur (rotenc st),
                          effects := effects st @ [Callback f]\<rparr>)
              | None \<Rightarrow>
                  s_menu_position_handling
                    (st\<lparr>rotenc := rotenc_accept cur (rotenc st)\<rparr>))))"

text \<open>\<open>s_push_button_callback\<close>\<close>

definition s_push_button_callback :: "menu_state \<Rightarrow> fault + menu_state" where
  "s_push_button_callback st =
     (case current st of
        None \<Rightarrow> Inl NullDereference
      | Some c \<Rightarrow>
          (if child (mem st c) \<noteq> None \<and>
              (flags (mem st c) AND MENU_FLAG_GOTO_CHILD) = MENU_FLAG_GOTO_CHILD
           then s_display_menu (st\<lparr>current := child (mem st c)\<rparr>)
           else if parent (mem st c) \<noteq> None \<and>
              (flags (mem st c) AND MENU_FLAG_GOTO_PARENT) = MENU_FLAG_GOTO_PARENT
           then s_display_menu (st\<lparr>current := parent (mem st c)\<rparr>)
           else s_display_menu st))"

text \<open>\<open>s_long_push_button_callback\<close>\<close>

definition s_long_push_button_callback :: "menu_state \<Rightarrow> fault + menu_state" where
  "s_long_push_button_callback st =
     (case current st of
        None \<Rightarrow> Inl NullDereference
      | Some c \<Rightarrow>
          (if parent (mem st c) \<noteq> None
           then s_display_menu (st\<lparr>current := parent (mem st c)\<rparr>)
           else s_display_menu (st\<lparr>current := start st\<rparr>)))"

section \<open>The item store\<close>

text \<open>
  \<open>malloc(sizeof(menu_item_t))\<close>: a fresh block, or \<open>NULL\<close> when the heap has none
  left. The block is not cleared: its content is what the memory held.
\<close>

definition malloc :: "menu_state \<Rightarrow> ptr \<times> menu_state" where
  "malloc st =
     (if heap_avail st = 0 then (None, st)
      else (Some (heap_used st),
            st\<lparr>heap_used := heap_used st + 1, heap_avail := heap_avail st - 1\<rparr>))"

text \<open>\<open>s_create_new_item\<close>, both branches of the \<open>#if\<close>.\<close>

definition s_create_new_item :: "menu_config \<Rightarrow> menu_state \<Rightarrow> ptr \<times> menu_state" where
  "s_create_new_item cfg st =
     (case usage_memory cfg of
        MENU_USAGE_STATIC_MEMORY \<Rightarrow>
          (if menu_size cfg \<le> unat (static_array_pos st) then (None, st)
           else (Some (unat (static_array_pos st)),
                 st\<lparr>static_array_pos := static_array_pos st + 1\<rparr>))
      | MENU_USAGE_DYNAMIC_MEMORY \<Rightarrow> malloc st)"

text \<open>
  \<open>strncpy(dst, src, n)\<close> writes exactly \<open>n\<close> bytes: the bytes of \<open>src\<close> up to its
  terminating NUL, then NUL bytes up to \<open>n\<close>; when \<open>src\<close> has \<open>n\<close> or more bytes before
  its NUL, no NUL is written. The source string is the list of its bytes; the end of the
  list stands for its terminator.
\<close>

definition NUL :: char where
  "NUL = CHR 0x00"

fun strncpy :: "nat \<Rightarrow> char list \<Rightarrow> char list" where
  "strncpy 0 src = []"
| "strncpy (Suc n) [] = NUL # strncpy n []"
| "strncpy (Suc n) (c # cs) = (if c = NUL then NUL # strncpy n [] else c # strncpy n cs)"

section \<open>The chain builder\<close>

text \<open>The body of the loop of \<open>s_menu_rechain\<close> for an item of the wanted parent:
  \<open>item->prev = prev; if (prev != NULL) prev->next = item;\<close>\<close>

definition rechain_link :: "ptr \<Rightarrow> addr \<Rightarrow> (addr \<Rightarrow> menu_item_t) \<Rightarrow> (addr \<Rightarrow> menu_item_t)" where
  "rechain_link prv a m =
     (case prv of
        None \<Rightarrow> m(a := (m a)\<lparr>prev := None\<rparr>)
      | Some p \<Rightarrow>
          (m(a := (m a)\<lparr>prev := Some p\<rparr>))
            (p := ((m(a := (m a)\<lparr>prev := Some p\<rparr>)) p)\<lparr>next := Some a\<rparr>))"

text \<open>The loop \<open>while (item)\<close> of \<open>s_menu_rechain\<close>, with the locals \<open>first\<close>, \<open>prev\<close>
  and \<open>item\<close>. It need not end on a cyclic \<open>folowing\<close> chain: not returning is \<open>None\<close>.\<close>

partial_function (option) rechain_loop ::
  "ptr \<Rightarrow> ptr \<Rightarrow> ptr \<Rightarrow> ptr \<Rightarrow> (addr \<Rightarrow> menu_item_t) \<Rightarrow>
     (ptr \<times> ptr \<times> (addr \<Rightarrow> menu_item_t)) option" where
  "rechain_loop par first prv item m =
     (case item of
        None \<Rightarrow> Some (first, prv, m)
      | Some a \<Rightarrow>
          (if parent (m a) = par
           then rechain_loop par (if first = None then Some a else first) (Some a)
                  (folowing (rechain_link prv a m a)) (rechain_link prv a m)
           else rechain_loop par first prv (folowing (m a)) m))"

declare rechain_loop.simps [code]

text \<open>\<open>s_menu_rechain\<close>: the loop, then \<open>first->prev = prev\<close> and \<open>prev->next = first\<close>
  under their \<open>NULL\<close> checks.\<close>

definition rechain_close :: "ptr \<Rightarrow> ptr \<Rightarrow> (addr \<Rightarrow> menu_item_t) \<Rightarrow> (addr \<Rightarrow> menu_item_t)" where
  "rechain_close first prv m =
     (case prv of
        None \<Rightarrow> (case first of None \<Rightarrow> m | Some f \<Rightarrow> m(f := (m f)\<lparr>prev := None\<rparr>))
      | Some p \<Rightarrow>
          (case first of
             None \<Rightarrow> m(p := (m p)\<lparr>next := None\<rparr>)
           | Some f \<Rightarrow>
               (m(f := (m f)\<lparr>prev := Some p\<rparr>))
                 (p := ((m(f := (m f)\<lparr>prev := Some p\<rparr>)) p)\<lparr>next := Some f\<rparr>)))"

definition s_menu_rechain :: "ptr \<Rightarrow> menu_state \<Rightarrow> menu_state option" where
  "s_menu_rechain par st =
     (case rechain_loop par None None (start st) (mem st) of
        None \<Rightarrow> None
      | Some (first, prv, m) \<Rightarrow> Some (st\<lparr>mem := rechain_close first prv m\<rparr>))"

section \<open>Construction\<close>

text \<open>
  \<open>s_menu_add_item\<close>. The result is \<open>None\<close> when the call does not return, and
  otherwise the returned pointer (\<open>NULL\<close> on a failed allocation) with the new state.
\<close>

definition add_item_init ::
  "char list \<Rightarrow> ptr \<Rightarrow> menu_item_callback_t \<Rightarrow> 8 word \<Rightarrow> menu_item_t \<Rightarrow> menu_item_t" where
  "add_item_init ttl par cb fl it =
     it\<lparr>title := strncpy MENU_ITEM_TITLE_LEN ttl,
        parent := par, child := None, flags := fl, callback := cb, folowing := None\<rparr>"

definition add_item_append :: "addr \<Rightarrow> menu_state \<Rightarrow> menu_state" where
  "add_item_append a st =
     (case current st of
        None \<Rightarrow> st
      | Some c \<Rightarrow> st\<lparr>mem := (mem st)(c := (mem st c)\<lparr>folowing := Some a\<rparr>)\<rparr>)"

definition s_menu_add_item ::
  "menu_config \<Rightarrow> char list \<Rightarrow> ptr \<Rightarrow> menu_item_callback_t \<Rightarrow> 8 word \<Rightarrow> menu_state \<Rightarrow>
     (ptr \<times> menu_state) option" where
  "s_menu_add_item cfg ttl par cb fl st =
     (case s_create_new_item cfg st of
        (None, st1) \<Rightarrow> Some (None, st1)
      | (Some a, st1) \<Rightarrow>
          (case s_menu_rechain par
                  ((add_item_append a
                      (st1\<lparr>mem := (mem st1)(a := add_item_init ttl par cb fl (mem st1 a))\<rparr>))
                     \<lparr>current := Some a,
                      start := (if start st1 = None then Some a else start st1)\<rparr>) of
             None \<Rightarrow> None
           | Some st2 \<Rightarrow> Some (Some a, st2)))"

text \<open>\<open>s_menu_set_child\<close>\<close>

definition s_menu_set_child :: "ptr \<Rightarrow> ptr \<Rightarrow> menu_state \<Rightarrow> menu_state" where
  "s_menu_set_child item chld st =
     (case item of
        None \<Rightarrow> st
      | Some a \<Rightarrow>
          st\<lparr>mem := (mem st)(a := (mem st a)
                \<lparr>child := chld, flags := flags (mem st a) OR MENU_FLAG_GOTO_CHILD\<rparr>)\<rparr>)"

section \<open>Teardown (dynamic build)\<close>

text \<open>\<open>free(item)\<close>: releasing a block that was already released is a fault.\<close>

definition free_block :: "addr \<Rightarrow> menu_state \<Rightarrow> fault + menu_state" where
  "free_block a st =
     (if a \<in> set (freed st) then Inl DoubleFree else Inr (st\<lparr>freed := freed st @ [a]\<rparr>))"

text \<open>
  The loop of \<open>s_menu_free_items\<close>: \<open>while (item->folowing) { next = item->folowing;
  free(item); item = next; }\<close>. Reading \<open>item->folowing\<close> of a released block is a fault.
\<close>

partial_function (option) free_items_loop ::
  "addr \<Rightarrow> menu_state \<Rightarrow> (fault + menu_state) option" where
  "free_items_loop item st =
     (if item \<in> set (freed st) then Some (Inl UseAfterFree)
      else
        (case folowing (mem st item) of
           None \<Rightarrow> Some (Inr st)
         | Some nxt \<Rightarrow>
             (case free_block item st of
                Inl e \<Rightarrow> Some (Inl e)
              | Inr st1 \<Rightarrow> free_items_loop nxt st1)))"

declare free_items_loop.simps [code]

definition s_menu_free_items :: "menu_state \<Rightarrow> (fault + menu_state) option" where
  "s_menu_free_items st =
     (case start st of
        None \<Rightarrow> Some (Inl NullDereference)
      | Some a \<Rightarrow> free_items_loop a st)"

section \<open>States of the program\<close>

text \<open>An object of static storage duration is zero: every byte of the title is NUL,
  every pointer is \<open>NULL\<close>.\<close>

definition zero_item :: menu_item_t where
  "zero_item =
     \<lparr>title = replicate MENU_ITEM_TITLE_LEN NUL, prev = None, next = None, folowing = None,
      parent = None, child = None, callback = None, data = 0, flags = 0\<rparr>"

text \<open>
  The state at program start: \<open>s_menu_handle\<close> and \<open>s_menu_items\<close> are static objects,
  hence zero. In the dynamic build the memory is the heap, whose content \<open>heap\<close> and
  whose number \<open>avail\<close> of blocks \<open>malloc\<close> can serve are given by the environment.
\<close>

definition initial_state :: "menu_config \<Rightarrow> (addr \<Rightarrow> menu_item_t) \<Rightarrow> nat \<Rightarrow> menu_state" where
  "initial_state cfg heap avail =
     \<lparr>rotenc = \<lparr>rot_current = 0, rot_prev = 0, rot_delta = 0\<rparr>,
      current = None, start = None, static_array_pos = 0,
      mem = (case usage_memory cfg of
               MENU_USAGE_STATIC_MEMORY \<Rightarrow> (\<lambda>_. zero_item)
             | MENU_USAGE_DYNAMIC_MEMORY \<Rightarrow> heap),
      heap_used = 0, heap_avail = avail, freed = [], effects = []\<rparr>"

text \<open>
  A construction is a sequence of calls of \<open>s_menu_add_item\<close> and \<open>s_menu_set_child\<close>,
  as in the body of \<open>Menu_Init\<close>. \<open>build\<close> runs the calls in order; the pointers a call
  passes are the ones earlier calls returned.
\<close>

datatype build_call =
  Add_item "char list" ptr menu_item_callback_t "8 word"
| Set_child ptr ptr

fun build_step :: "menu_config \<Rightarrow> build_call \<Rightarrow> menu_state \<Rightarrow> menu_state option" where
  "build_step cfg (Add_item ttl par cb fl) st =
     (case s_menu_add_item cfg ttl par cb fl st of
        None \<Rightarrow> None
      | Some (r, st1) \<Rightarrow> Some st1)"
| "build_step cfg (Set_child item chld) st = Some (s_menu_set_child item chld st)"

fun build :: "menu_config \<Rightarrow> build_call list \<Rightarrow> menu_state \<Rightarrow> menu_state option" where
  "build cfg [] st = Some st"
| "build cfg (c # cs) st =
     (case build_step cfg c st of
        None \<Rightarrow> None
      | Some st1 \<Rightarrow> build cfg cs st1)"

text \<open>The number of items handed out so far.\<close>

definition n_items :: "menu_config \<Rightarrow> menu_state \<Rightarrow> nat" where
  "n_items cfg st =
     (case usage_memory cfg of
        MENU_USAGE_STATIC_MEMORY \<Rightarrow> unat (static_array_pos st)
      | MENU_USAGE_DYNAMIC_MEMORY \<Rightarrow> heap_used st)"

section \<open>The behaviour the specification describes\<close>

text \<open>The named capabilities of an item: \<open>can_descend_to_child\<close> is the bit 0x20 of the
  flags, \<open>can_ascend_to_parent\<close> the bit 0x80.\<close>

definition can_descend_to_child :: "menu_item_t \<Rightarrow> bool" where
  "can_descend_to_child it = bit (flags it) 5"

definition can_ascend_to_parent :: "menu_item_t \<Rightarrow> bool" where
  "can_ascend_to_parent it = bit (flags it) 7"

text \<open>Focus an item and request a re-render: \<open>render(current_title, next_title)\<close>, where
  \<open>next_title\<close> is the title of the ring successor of the focused item.\<close>

definition focus_and_render :: "ptr \<Rightarrow> menu_state \<Rightarrow> fault + menu_state" where
  "focus_and_render t st =
     (case t of
        None \<Rightarrow> Inl NullDereference
      | Some a \<Rightarrow>
          (case next (mem st a) of
             None \<Rightarrow> Inl NullDereference
           | Some n \<Rightarrow>
               Inr (st\<lparr>current := Some a,
                       effects := effects st @
                         [PrintMenu (title (mem st a)) (title (mem st n))]\<rparr>)))"

text \<open>The item a short press on \<open>c\<close> focuses.\<close>

definition short_press_target :: "menu_state \<Rightarrow> addr \<Rightarrow> ptr" where
  "short_press_target st c =
     (if can_descend_to_child (mem st c) \<and> child (mem st c) \<noteq> None then child (mem st c)
      else if can_ascend_to_parent (mem st c) \<and> parent (mem st c) \<noteq> None
        then parent (mem st c)
      else Some c)"

text \<open>The item a long press on \<open>c\<close> focuses.\<close>

definition long_press_target :: "menu_state \<Rightarrow> addr \<Rightarrow> ptr" where
  "long_press_target st c =
     (if parent (mem st c) \<noteq> None then parent (mem st c) else start st)"

text \<open>The item an accepted tick with the signed difference \<open>d\<close> focuses when \<open>c\<close> has no
  callback.\<close>

definition tick_target :: "menu_state \<Rightarrow> addr \<Rightarrow> int \<Rightarrow> ptr" where
  "tick_target st c d =
     (if 0 < d then next (mem st c) else if d < 0 then prev (mem st c) else Some c)"

text \<open>A reading passes the filter when it is an exact multiple of the filter factor.\<close>

definition accepted_reading :: "32 word \<Rightarrow> bool" where
  "accepted_reading r = (unat r mod unat ENCODER_INPUT_FILTER = 0)"

text \<open>A small menu: three root items, the third with a submenu of two items, the first
  of which leads back and the second of which has a callback.\<close>

definition demo_calls :: "build_call list" where
  "demo_calls =
     [Add_item ''Start'' None None 0,
      Add_item ''Test'' None None 0,
      Add_item ''Options'' None None 0,
      Add_item ''Back'' (Some 2) None MENU_FLAG_GOTO_PARENT,
      Add_item ''PWM'' (Some 2) (Some 7) 0,
      Set_child (Some 2) (Some 3)]"

definition demo_menu :: menu_state where
  "demo_menu = the (build menu_h demo_calls (initial_state menu_h (\<lambda>_. zero_item) MENU_SIZE))"

text \<open>The static build with room for two items, and the menu of two root items built in
  it.\<close>

definition tiny_config :: menu_config where
  "tiny_config = \<lparr>usage_memory = MENU_USAGE_STATIC_MEMORY, menu_size = 2\<rparr>"

definition tiny_menu :: menu_state where
  "tiny_menu = the (build tiny_config [Add_item ''A'' None None 0, Add_item ''B'' None None 0]
                 (initial_state tiny_config (\<lambda>_. zero_item) 0))"

section \<open>Chains and rings\<close>

text \<open>\<open>chain m p xs\<close>: following \<open>folowing\<close> from the pointer \<open>p\<close> visits exactly the items
  \<open>xs\<close>, in this order, and then reaches \<open>NULL\<close>. This is the build-order chain.\<close>

fun chain :: "(addr \<Rightarrow> menu_item_t) \<Rightarrow> ptr \<Rightarrow> addr list \<Rightarrow> bool" where
  "chain m p [] = (p = None)"
| "chain m p (a # as) = (p = Some a \<and> chain m (folowing (m a)) as)"

text \<open>The items of \<open>xs\<close> whose parent is \<open>par\<close>, in the order of \<open>xs\<close>.\<close>

definition siblings :: "(addr \<Rightarrow> menu_item_t) \<Rightarrow> addr list \<Rightarrow> ptr \<Rightarrow> addr list" where
  "siblings m xs par = filter (\<lambda>a. parent (m a) = par) xs"

text \<open>\<open>y\<close> is the ring successor of \<open>x\<close>: \<open>x.next == y\<close> and \<open>y.prev == x\<close>.\<close>

definition linked :: "(addr \<Rightarrow> menu_item_t) \<Rightarrow> addr \<Rightarrow> addr \<Rightarrow> bool" where
  "linked m x y = (next (m x) = Some y \<and> prev (m y) = Some x)"

text \<open>The items \<open>ys\<close> form a closed ring in this order: each is linked to the next one and
  the last to the first.\<close>

definition ring :: "(addr \<Rightarrow> menu_item_t) \<Rightarrow> addr list \<Rightarrow> bool" where
  "ring m ys = list_all (\<lambda>(x, y). linked m x y) (zip ys (rotate1 ys))"

text \<open>What the loop of \<open>s_menu_rechain\<close> does to the memory for the matching items \<open>ys\<close>,
  starting with the local \<open>prev\<close> equal to \<open>prv\<close>.\<close>

fun relink :: "ptr \<Rightarrow> addr list \<Rightarrow> (addr \<Rightarrow> menu_item_t) \<Rightarrow> (addr \<Rightarrow> menu_item_t)" where
  "relink prv [] m = m"
| "relink prv (y # ys) m = relink (Some y) ys (rechain_link prv y m)"

text \<open>The memory after \<open>s_menu_rechain\<close> on a chain \<open>xs\<close>.\<close>

definition rechained :: "ptr \<Rightarrow> addr list \<Rightarrow> (addr \<Rightarrow> menu_item_t) \<Rightarrow> (addr \<Rightarrow> menu_item_t)" where
  "rechained par xs m =
     (if siblings m xs par = [] then m
      else rechain_close (Some (hd (siblings m xs par))) (Some (last (siblings m xs par)))
             (relink None (siblings m xs par) m))"

text \<open>\<open>static_array_pos\<close> is a \<open>uint8_t\<close>: the static array must have fewer than 256
  slots for the counter not to wrap (menu.h has 32).\<close>

definition config_ok :: "menu_config \<Rightarrow> bool" where
  "config_ok cfg =
     (case usage_memory cfg of
        MENU_USAGE_STATIC_MEMORY \<Rightarrow> menu_size cfg < 256
      | MENU_USAGE_DYNAMIC_MEMORY \<Rightarrow> True)"

text \<open>The items handed out so far, in creation order: the \<open>n\<close>-th item created has the
  address \<open>n\<close> (the slot in the static array, the number of the heap block).\<close>

definition items :: "menu_config \<Rightarrow> menu_state \<Rightarrow> addr list" where
  "items cfg st = [0..<n_items cfg st]"

text \<open>
  The invariant of construction: the build-order chain from \<open>start\<close> visits the items in
  creation order, \<open>current\<close> is the item created last, and for every item the items that
  share its parent form a closed ring in creation order.
\<close>

definition well_built :: "menu_config \<Rightarrow> menu_state \<Rightarrow> bool" where
  "well_built cfg st =
     (chain (mem st) (start st) (items cfg st) \<and>
      current st = (if n_items cfg st = 0 then None else Some (n_items cfg st - 1)) \<and>
      list_all (\<lambda>a. ring (mem st) (siblings (mem st) (items cfg st) (parent (mem st a))))
        (items cfg st))"

text \<open>The memory after \<open>s_menu_add_item\<close> has filled the new item \<open>n\<close> and appended it to the
  build-order chain, before the chain builder runs.\<close>

definition appended ::
  "addr \<Rightarrow> char list \<Rightarrow> ptr \<Rightarrow> menu_item_callback_t \<Rightarrow> 8 word \<Rightarrow> (addr \<Rightarrow> menu_item_t) \<Rightarrow>
     (addr \<Rightarrow> menu_item_t)" where
  "appended n ttl par cb fl m =
     (if n = 0 then m(n := add_item_init ttl par cb fl (m n))
      else (m(n := add_item_init ttl par cb fl (m n)))
             (n - 1 := (m (n - 1))\<lparr>folowing := Some n\<rparr>))"

text \<open>Ring closure at an item \<open>x\<close>: \<open>x.next\<close> and \<open>x.prev\<close> are not \<open>NULL\<close>,
  \<open>x.next.prev == x\<close>, \<open>x.prev.next == x\<close>, and both neighbours have the parent of \<open>x\<close>.\<close>

definition ring_closed_at :: "(addr \<Rightarrow> menu_item_t) \<Rightarrow> addr \<Rightarrow> bool" where
  "ring_closed_at m x =
     (case next (m x) of
        None \<Rightarrow> False
      | Some n \<Rightarrow>
          (case prev (m x) of
             None \<Rightarrow> False
           | Some p \<Rightarrow>
               prev (m n) = Some x \<and> next (m p) = Some x \<and>
               parent (m n) = parent (m x) \<and> parent (m p) = parent (m x)))"

text \<open>The parents passed by the \<open>s_menu_add_item\<close> calls of a construction, in call order,
  and the parents the items carry, in creation order.\<close>

fun call_parents :: "build_call list \<Rightarrow> ptr list" where
  "call_parents [] = []"
| "call_parents (Add_item ttl par cb fl # cs) = par # call_parents cs"
| "call_parents (Set_child item chld # cs) = call_parents cs"

definition item_parents :: "menu_config \<Rightarrow> menu_state \<Rightarrow> ptr list" where
  "item_parents cfg st = map (\<lambda>a. parent (mem st a)) (items cfg st)"

section \<open>The draft menu03.c\<close>

text \<open>
  The draft menu03.c has an earlier \<open>s_menu_rechain\<close>: its loop is
  \<open>while (item->folowing)\<close>, it links an item only when \<open>prev\<close> is set, and it closes the
  ring with \<open>first->prev = prev; prev->next = first;\<close> without \<open>NULL\<close> checks.
\<close>

definition rechain03_link :: "ptr \<Rightarrow> addr \<Rightarrow> (addr \<Rightarrow> menu_item_t) \<Rightarrow> (addr \<Rightarrow> menu_item_t)" where
  "rechain03_link prv a m =
     (case prv of
        None \<Rightarrow> m
      | Some p \<Rightarrow>
          (m(a := (m a)\<lparr>prev := Some p\<rparr>))
            (p := ((m(a := (m a)\<lparr>prev := Some p\<rparr>)) p)\<lparr>next := Some a\<rparr>))"

partial_function (option) rechain03_loop ::
  "ptr \<Rightarrow> ptr \<Rightarrow> ptr \<Rightarrow> ptr \<Rightarrow> (addr \<Rightarrow> menu_item_t) \<Rightarrow>
     (fault + ptr \<times> ptr \<times> (addr \<Rightarrow> menu_item_t)) option" where
  "rechain03_loop par first prv item m =
     (case item of
        None \<Rightarrow> Some (Inl NullDereference)
      | Some a \<Rightarrow>
          (case folowing (m a) of
             None \<Rightarrow> Some (Inr (first, prv, m))
           | Some nxt \<Rightarrow>
               (if parent (m a) = par
                then rechain03_loop par (if first = None then Some a else first) (Some a)
                       (folowing (rechain03_link prv a m a)) (rechain03_link prv a m)
                else rechain03_loop par first prv (folowing (m a)) m)))"

definition s_menu_rechain03 :: "ptr \<Rightarrow> menu_state \<Rightarrow> (fault + menu_state) option" where
  "s_menu_rechain03 par st =
     (case rechain03_loop par None None (start st) (mem st) of
        None \<Rightarrow> None
      | Some (Inl e) \<Rightarrow> Some (Inl e)
      | Some (Inr (first, prv, m)) \<Rightarrow>
          (case first of
             None \<Rightarrow> Some (Inl NullDereference)
           | Some f \<Rightarrow>
               (case prv of
                  None \<Rightarrow> Some (Inl NullDereference)
                | Some p \<Rightarrow>
                    Some (Inr (st\<lparr>mem :=
                      (m(f := (m f)\<lparr>prev := Some p\<rparr>))
                        (p := ((m(f := (m f)\<lparr>prev := Some p\<rparr>)) p)\<lparr>next := Some f\<rparr>)\<rparr>)))))"

section \<open>Evaluating the model on concrete menus\<close>

text \<open>The loop equation of \<open>rechain_loop\<close>, split by the shape of \<open>item\<close> so that it can
  be used for rewriting.\<close>

lemma rechain_loop_None: "rechain_loop par first prv None m = Some (first, prv, m)"
  by (subst rechain_loop.simps) simp

lemma rechain_loop_Some:
  "rechain_loop par first prv (Some a) m =
     (if parent (m a) = par
      then rechain_loop par (if first = None then Some a else first) (Some a)
             (folowing (rechain_link prv a m a)) (rechain_link prv a m)
      else rechain_loop par first prv (folowing (m a)) m)"
  by (subst rechain_loop.simps) simp

lemmas build_eval =
  build.simps build_step.simps s_menu_add_item_def s_create_new_item_def malloc_def
  s_menu_rechain_def rechain_loop_None rechain_loop_Some rechain_link_def rechain_close_def
  add_item_init_def add_item_append_def s_menu_set_child_def initial_state_def menu_h_def
  MENU_USAGE_MEMORY_def MENU_SIZE_def zero_item_def

lemma demo_menu_fields:
  "current demo_menu = Some 4 \<and> start demo_menu = Some 0 \<and>
   rotenc demo_menu = \<lparr>rot_current = 0, rot_prev = 0, rot_delta = 0\<rparr> \<and>
   effects demo_menu = [] \<and> heap_used demo_menu = 5 \<and>
   map (\<lambda>a. (prev (mem demo_menu a), next (mem demo_menu a), parent (mem demo_menu a),
              child (mem demo_menu a), callback (mem demo_menu a), flags (mem demo_menu a),
              folowing (mem demo_menu a)))
     [0, 1, 2, 3, 4] =
     [(Some 2, Some 1, None, None, None, 0, Some 1),
      (Some 0, Some 2, None, None, None, 0, Some 2),
      (Some 1, Some 0, None, Some 3, None, 0x20, Some 3),
      (Some 4, Some 4, Some 2, None, None, 0x80, Some 4),
      (Some 3, Some 3, Some 2, None, Some 7, 0, None)]"
  unfolding demo_menu_def demo_calls_def
  by (simp add: build_eval MENU_FLAG_GOTO_PARENT_def MENU_FLAG_GOTO_CHILD_def)

lemma demo_built:
  "build menu_h demo_calls (initial_state menu_h (\<lambda>_. zero_item) MENU_SIZE) = Some demo_menu"
  unfolding demo_menu_def demo_calls_def by (simp add: build_eval)

section \<open>Words\<close>

lemma flag_bit_and: "((w::8 word) AND 2 ^ n = 2 ^ n) = bit w n" if "n < 8"
proof
  assume "w AND 2 ^ n = 2 ^ n"
  then have "bit (w AND 2 ^ n) n = bit (2 ^ n :: 8 word) n" by simp
  then show "bit w n" using that by (simp add: bit_simps)
next
  assume "bit w n"
  then show "w AND 2 ^ n = 2 ^ n"
    by (intro bit_eqI) (auto simp add: bit_simps)
qed

lemma flag_child_bit: "((w::8 word) AND MENU_FLAG_GOTO_CHILD = MENU_FLAG_GOTO_CHILD) = bit w 5"
  using flag_bit_and [of 5 w] by (simp add: MENU_FLAG_GOTO_CHILD_def)

lemma flag_parent_bit: "((w::8 word) AND MENU_FLAG_GOTO_PARENT = MENU_FLAG_GOTO_PARENT) = bit w 7"
  using flag_bit_and [of 7 w] by (simp add: MENU_FLAG_GOTO_PARENT_def)

lemma filt: "((r::32 word) div 2 * 2 = r) = (unat r mod 2 = 0)"
proof -
  have b: "unat r < 4294967296" using unsigned_less [of r, where ?'a = nat] by simp
  have d: "unat (r div 2) = unat r div 2" by (simp add: unat_div)
  have "unat (r div 2 * 2) = (unat (r div 2) * 2) mod 4294967296"
    by (simp add: unat_word_ariths)
  also have "\<dots> = unat r div 2 * 2" using b unfolding d by simp
  finally have u: "unat (r div 2 * 2) = unat r div 2 * 2" .
  have "(r div 2 * 2 = r) = (unat (r div 2 * 2) = unat r)"
    by (simp only: word_unat_eq_iff)
  also have "\<dots> = (unat r mod 2 = 0)" unfolding u by presburger
  finally show ?thesis .
qed

lemma sint_small: "uint (w::32 word) < 2147483648 \<Longrightarrow> sint w = uint w"
proof -
  assume a: "uint w < 2147483648"
  have z: "0 \<le> uint w" by simp
  have e: "(2::int) ^ 31 = 2147483648" by simp
  have "signed_take_bit 31 (uint w) = uint w"
    using a z e by (intro signed_take_bit_int_eq_self) linarith+
  then show ?thesis by (simp add: sint_uint)
qed

lemma div2_small: "uint ((r::32 word) div 2) < 2147483648"
proof -
  have "uint r < 4294967296" using uint_lt2p [of r] by simp
  moreover have "uint (r div 2) = uint r div 2" by (simp add: uint_div)
  ultimately show ?thesis by linarith
qed

lemma sint_delta: "uint (p::32 word) < 2147483648 \<Longrightarrow> sint ((r::32 word) div 2 - p) = uint (r div 2) - uint p"
proof -
  assume p: "uint p < 2147483648"
  have r: "uint (r div 2) < 2147483648" by (rule div2_small)
  have e: "(2::int) ^ 31 = 2147483648" by simp
  have p0: "0 \<le> uint p" and r0: "0 \<le> uint (r div 2)" by simp_all
  have "sint (r div 2 - p) = signed_take_bit 31 (sint (r div 2) - sint p)"
    by (simp add: sint_word_ariths)
  also have "\<dots> = signed_take_bit 31 (uint (r div 2) - uint p)"
    using p r by (simp only: sint_small)
  also have "\<dots> = uint (r div 2) - uint p"
    using p r p0 r0 e by (intro signed_take_bit_int_eq_self) linarith+
  finally show ?thesis .
qed


lemma accepted_reading_iff:
  "accepted_reading r = (r div ENCODER_INPUT_FILTER * ENCODER_INPUT_FILTER = r)"
  by (simp add: accepted_reading_def ENCODER_INPUT_FILTER_def filt)

section \<open>Navigation: button and encoder events\<close>

lemma display_focus:
  "s_display_menu (st\<lparr>current := t\<rparr>) = focus_and_render t st"
  by (simp add: s_display_menu_def focus_and_render_def split: option.splits)

lemma display_current:
  "current st = Some c \<Longrightarrow> s_display_menu st = focus_and_render (Some c) st"
  by (simp add: s_display_menu_def focus_and_render_def split: option.splits)

lemma focus_and_render_Inr:
  "focus_and_render t st = Inr st' \<Longrightarrow>
     current st' = t \<and> mem st' = mem st \<and> start st' = start st \<and> rotenc st' = rotenc st \<and>
     (\<exists>a n. t = Some a \<and> next (mem st a) = Some n \<and>
        effects st' = effects st @ [PrintMenu (title (mem st a)) (title (mem st n))])"
  by (auto simp: focus_and_render_def split: option.splits)

lemma demo_flat:
  "current demo_menu = Some 4" "start demo_menu = Some 0"
  "rotenc demo_menu = \<lparr>rot_current = 0, rot_prev = 0, rot_delta = 0\<rparr>"
  "effects demo_menu = []" "heap_used demo_menu = 5"
  "prev (mem demo_menu 0) = Some 2" "next (mem demo_menu 0) = Some (Suc 0)"
  "parent (mem demo_menu 0) = None" "child (mem demo_menu 0) = None"
  "callback (mem demo_menu 0) = None" "flags (mem demo_menu 0) = 0"
  "prev (mem demo_menu (Suc 0)) = Some 0" "next (mem demo_menu (Suc 0)) = Some 2"
  "parent (mem demo_menu (Suc 0)) = None" "child (mem demo_menu (Suc 0)) = None"
  "callback (mem demo_menu (Suc 0)) = None" "flags (mem demo_menu (Suc 0)) = 0"
  "prev (mem demo_menu 2) = Some (Suc 0)" "next (mem demo_menu 2) = Some 0"
  "parent (mem demo_menu 2) = None" "child (mem demo_menu 2) = Some 3"
  "callback (mem demo_menu 2) = None" "flags (mem demo_menu 2) = 0x20"
  "prev (mem demo_menu 3) = Some 4" "next (mem demo_menu 3) = Some 4"
  "parent (mem demo_menu 3) = Some 2" "child (mem demo_menu 3) = None"
  "callback (mem demo_menu 3) = None" "flags (mem demo_menu 3) = 0x80"
  "prev (mem demo_menu 4) = Some 3" "next (mem demo_menu 4) = Some 3"
  "parent (mem demo_menu 4) = Some 2" "child (mem demo_menu 4) = None"
  "callback (mem demo_menu 4) = Some 7" "flags (mem demo_menu 4) = 0"
  "folowing (mem demo_menu 0) = Some (Suc 0)" "folowing (mem demo_menu (Suc 0)) = Some 2"
  "folowing (mem demo_menu 2) = Some 3" "folowing (mem demo_menu 3) = Some 4"
  "folowing (mem demo_menu 4) = None"
  using demo_menu_fields by simp_all

text \<open>
  Claim C5. A short button press on the focused item \<open>c\<close> focuses \<open>c\<close>'s child when the
  descend flag is set and the child is not \<open>NULL\<close>; otherwise \<open>c\<close>'s parent when the ascend
  flag is set and the parent is not \<open>NULL\<close>; otherwise \<open>c\<close> itself. In all three cases the
  menu is then rendered once, and nothing else changes. (The render dereferences the ring
  successor of the focused item, so the call faults exactly when that pointer is \<open>NULL\<close>.)
\<close>

theorem short_press_focus:
  assumes "current st = Some c"
  shows "s_push_button_callback st = focus_and_render (short_press_target st c) st \<and>
         (\<forall>st'. s_push_button_callback st = Inr st' \<longrightarrow>
            current st' = short_press_target st c \<and> mem st' = mem st \<and>
            (\<exists>t n. effects st' = effects st @ [PrintMenu t n]))"
proof -
  have eq: "s_push_button_callback st = focus_and_render (short_press_target st c) st"
    using assms
    by (simp add: s_push_button_callback_def short_press_target_def can_descend_to_child_def
        can_ascend_to_parent_def flag_child_bit flag_parent_bit display_focus display_current)
  show ?thesis
    unfolding eq using focus_and_render_Inr [of "short_press_target st c" st] by blast
qed

text \<open>
  Claim C6. A long button press on the focused item \<open>c\<close> focuses \<open>c\<close>'s parent when it is
  not \<open>NULL\<close> and \<open>start\<close> otherwise, whatever the flags of \<open>c\<close>, and renders the menu
  once. In particular, when \<open>c\<close> is the root item \<open>start\<close> with no parent and a closed ring,
  the press returns without a fault and the focus is \<open>start\<close> again.
\<close>

theorem long_press_focus:
  assumes "current st = Some c"
  shows "s_long_push_button_callback st = focus_and_render (long_press_target st c) st \<and>
         (\<forall>st'. s_long_push_button_callback st = Inr st' \<longrightarrow>
            current st' = long_press_target st c \<and> mem st' = mem st \<and>
            (\<exists>t n. effects st' = effects st @ [PrintMenu t n])) \<and>
         (parent (mem st c) = None \<and> start st = Some c \<and> next (mem st c) \<noteq> None \<longrightarrow>
            (\<exists>st'. s_long_push_button_callback st = Inr st' \<and> current st' = start st))"
proof -
  have eq: "s_long_push_button_callback st = focus_and_render (long_press_target st c) st"
    using assms
    by (simp add: s_long_push_button_callback_def long_press_target_def display_focus)
  have root: "\<exists>st'. s_long_push_button_callback st = Inr st' \<and> current st' = start st"
    if "parent (mem st c) = None" "start st = Some c" "next (mem st c) \<noteq> None"
    using that unfolding eq by (auto simp: long_press_target_def focus_and_render_def)
  show ?thesis
    unfolding eq using focus_and_render_Inr [of "long_press_target st c" st] root
    unfolding eq by blast
qed


theorem short_press_focus_witness:
  "\<exists>st1 st2. s_push_button_callback (demo_menu\<lparr>current := Some 2\<rparr>) = Inr st1 \<and>
      current st1 = Some 3 \<and>
      s_push_button_callback st1 = Inr st2 \<and> current st2 = Some 2"
proof -
  let ?s = "demo_menu\<lparr>current := Some 2\<rparr>"
  let ?t = "?s\<lparr>current := Some 3,
              effects := effects ?s @ [PrintMenu (title (mem ?s 3)) (title (mem ?s 4))]\<rparr>"
  have a: "s_push_button_callback ?s = Inr ?t"
    using conjunct1 [OF short_press_focus [of ?s 2]]
    by (simp add: short_press_target_def focus_and_render_def can_descend_to_child_def
        can_ascend_to_parent_def demo_flat)
  have b: "\<exists>st2. s_push_button_callback ?t = Inr st2 \<and> current st2 = Some 2"
    using conjunct1 [OF short_press_focus [of ?t 3]]
    by (simp add: short_press_target_def focus_and_render_def can_descend_to_child_def
        can_ascend_to_parent_def demo_flat)
  show ?thesis using a b by simp
qed

theorem long_press_focus_witness:
  "current (demo_menu\<lparr>current := Some 0\<rparr>) = Some 0 \<and>
   s_long_push_button_callback (demo_menu\<lparr>current := Some 0\<rparr>) =
     Inr (demo_menu\<lparr>current := Some 0,
            effects := effects demo_menu @
              [PrintMenu (title (mem demo_menu 0)) (title (mem demo_menu 1))]\<rparr>) \<and>
   (\<exists>st'. s_long_push_button_callback (demo_menu\<lparr>current := Some 4\<rparr>) = Inr st' \<and>
      current st' = Some 2)"
proof -
  have a: "s_long_push_button_callback (demo_menu\<lparr>current := Some 0\<rparr>) =
     Inr (demo_menu\<lparr>current := Some 0,
            effects := effects demo_menu @
              [PrintMenu (title (mem demo_menu 0)) (title (mem demo_menu 1))]\<rparr>)"
    using conjunct1 [OF long_press_focus [of "demo_menu\<lparr>current := Some 0\<rparr>" 0]]
    by (simp add: long_press_target_def focus_and_render_def demo_flat)
  have b: "\<exists>st'. s_long_push_button_callback (demo_menu\<lparr>current := Some 4\<rparr>) = Inr st' \<and>
      current st' = Some 2"
    using conjunct1 [OF long_press_focus [of "demo_menu\<lparr>current := Some 4\<rparr>" 4]]
    by (simp add: long_press_target_def focus_and_render_def demo_flat)
  show ?thesis using a b by simp
qed

lemma rotenc_accept_fields:
  "rot_delta (rotenc_accept r e) = r div 2 - rot_current e"
  "rot_current (rotenc_accept r e) = r div 2"
  "rot_prev (rotenc_accept r e) = rot_current e"
  by (simp_all add: rotenc_accept_def)

lemma position_handling_rotenc:
  "s_menu_position_handling st = Inr st' \<Longrightarrow> rotenc st' = rotenc st"
  by (auto simp: s_menu_position_handling_def s_display_menu_def
      split: if_splits option.splits)

lemma accepted_tick_rotenc:
  assumes "accepted_reading r" and "s_rotary_encoder_callback r st = Inr st'"
  shows "rotenc st' = rotenc_accept r (rotenc st)"
  using assms position_handling_rotenc [of "st\<lparr>rotenc := rotenc_accept r (rotenc st)\<rparr>" st']
  by (auto simp: s_rotary_encoder_callback_def accepted_reading_iff split: option.splits)

text \<open>
  Claim C3. A raw encoder reading that is not an exact multiple of the filter factor
  leaves the whole state unchanged (position, delta, focus, no callback, no render). A
  reading \<open>r\<close> that is a multiple sets delta to \<open>r / 2 - position\<close> and position to
  \<open>position + delta\<close>, that is \<open>r / 2\<close>; read as a signed number, delta is the integer
  difference whenever the old position is below \<open>2^31\<close>. The filter factor is 2: reading
  5 is rejected and reading 4 is accepted.
\<close>

theorem encoder_filter:
  "(\<not> accepted_reading r \<longrightarrow> s_rotary_encoder_callback r st = Inr st) \<and>
   (accepted_reading r \<longrightarrow>
      (\<forall>st'. s_rotary_encoder_callback r st = Inr st' \<longrightarrow>
         rot_delta (rotenc st') = r div 2 - rot_current (rotenc st) \<and>
         rot_current (rotenc st') = rot_current (rotenc st) + rot_delta (rotenc st') \<and>
         rot_current (rotenc st') = r div 2 \<and>
         (uint (rot_current (rotenc st)) < 2147483648 \<longrightarrow>
            sint (rot_delta (rotenc st')) =
              uint r div 2 - uint (rot_current (rotenc st))))) \<and>
   ENCODER_INPUT_FILTER = 2 \<and> \<not> accepted_reading 5 \<and> accepted_reading 4"
proof -
  have rej: "s_rotary_encoder_callback r st = Inr st" if "\<not> accepted_reading r"
    using that by (simp add: s_rotary_encoder_callback_def accepted_reading_iff)
  have acc: "rot_delta (rotenc st') = r div 2 - rot_current (rotenc st) \<and>
         rot_current (rotenc st') = rot_current (rotenc st) + rot_delta (rotenc st') \<and>
         rot_current (rotenc st') = r div 2 \<and>
         (uint (rot_current (rotenc st)) < 2147483648 \<longrightarrow>
            sint (rot_delta (rotenc st')) =
              uint r div 2 - uint (rot_current (rotenc st)))"
    if "accepted_reading r" "s_rotary_encoder_callback r st = Inr st'" for st'
    using accepted_tick_rotenc [OF that] sint_delta [of "rot_current (rotenc st)" r]
    by (simp add: rotenc_accept_fields uint_div)
  have ex: "\<not> accepted_reading 5 \<and> accepted_reading 4"
    by (simp add: accepted_reading_def ENCODER_INPUT_FILTER_def)
  have f: "ENCODER_INPUT_FILTER = 2" by (simp add: ENCODER_INPUT_FILTER_def)
  show ?thesis using rej acc ex f by blast
qed

text \<open>
  Claim C4. On an accepted tick with the focus on \<open>c\<close>: when \<open>c\<close> has a callback, the
  callback is invoked and the focus stays (the only other change is the encoder state);
  otherwise the focus moves to \<open>c.next\<close> for a positive delta, to \<open>c.prev\<close> for a
  negative delta and stays for delta zero, and the menu is then rendered.
\<close>

theorem accepted_tick_dispatch:
  assumes "accepted_reading r" and "current st = Some c"
  shows "(\<forall>f. callback (mem st c) = Some f \<longrightarrow>
            s_rotary_encoder_callback r st =
              Inr (st\<lparr>rotenc := rotenc_accept r (rotenc st),
                      effects := effects st @ [Callback f]\<rparr>)) \<and>
         (callback (mem st c) = None \<longrightarrow>
            s_rotary_encoder_callback r st =
              focus_and_render
                (tick_target st c (sint (r div 2 - rot_current (rotenc st))))
                (st\<lparr>rotenc := rotenc_accept r (rotenc st)\<rparr>))"
  using assms
  by (simp add: s_rotary_encoder_callback_def accepted_reading_iff s_menu_position_handling_def
      tick_target_def display_focus display_current rotenc_accept_fields)


theorem encoder_filter_witness:
  "s_rotary_encoder_callback 5 (demo_menu\<lparr>current := Some 0\<rparr>) =
     Inr (demo_menu\<lparr>current := Some 0\<rparr>) \<and>
   (\<exists>st'. s_rotary_encoder_callback 4 (demo_menu\<lparr>current := Some 0\<rparr>) = Inr st' \<and>
      rot_delta (rotenc st') = 2 \<and> rot_current (rotenc st') = 2 \<and>
      sint (rot_delta (rotenc st')) = 2)"
proof -
  let ?s = "demo_menu\<lparr>current := Some 0\<rparr>"
  have a: "\<exists>st'. s_rotary_encoder_callback 4 ?s = Inr st'"
    by (simp add: s_rotary_encoder_callback_def ENCODER_INPUT_FILTER_def
        s_menu_position_handling_def s_display_menu_def rotenc_accept_def demo_flat)
  have b: "\<not> accepted_reading 5" "accepted_reading 4"
    by (simp_all add: accepted_reading_def ENCODER_INPUT_FILTER_def)
  from a obtain st' where e: "s_rotary_encoder_callback 4 ?s = Inr st'" by blast
  have f: "rot_delta (rotenc st') = 4 div 2 - rot_current (rotenc ?s)"
    "rot_current (rotenc st') = 4 div 2"
    "uint (rot_current (rotenc ?s)) < 2147483648 \<longrightarrow>
       sint (rot_delta (rotenc st')) = uint (4 :: 32 word) div 2 - uint (rot_current (rotenc ?s))"
    using encoder_filter [of 4 ?s] b(2) e by blast+
  have g: "rot_delta (rotenc st') = 2" "rot_current (rotenc st') = 2"
    "sint (rot_delta (rotenc st')) = 2"
    using f by (simp_all add: demo_flat)
  have h: "s_rotary_encoder_callback 5 ?s = Inr ?s"
    using encoder_filter [of 5 ?s] b(1) by blast
  show ?thesis using e g h by blast
qed

theorem accepted_tick_dispatch_witness:
  "accepted_reading 4 \<and> accepted_reading 2 \<and>
   s_rotary_encoder_callback 4 demo_menu =
     Inr (demo_menu\<lparr>rotenc := \<lparr>rot_current = 2, rot_prev = 0, rot_delta = 2\<rparr>,
            effects := [Callback 7]\<rparr>) \<and>
   (\<exists>st'. s_rotary_encoder_callback 4 (demo_menu\<lparr>current := Some 0\<rparr>) = Inr st' \<and>
      current st' = Some 1) \<and>
   (\<exists>st'. s_rotary_encoder_callback 2
       (demo_menu\<lparr>current := Some 0,
          rotenc := \<lparr>rot_current = 2, rot_prev = 0, rot_delta = 2\<rparr>\<rparr>) = Inr st' \<and>
      current st' = Some 2)"
proof -
  have acc: "accepted_reading 4" "accepted_reading 2"
    by (simp_all add: accepted_reading_def ENCODER_INPUT_FILTER_def)
  have a: "s_rotary_encoder_callback 4 demo_menu =
     Inr (demo_menu\<lparr>rotenc := \<lparr>rot_current = 2, rot_prev = 0, rot_delta = 2\<rparr>,
            effects := [Callback 7]\<rparr>)"
    using accepted_tick_dispatch [OF acc(1), of demo_menu 4]
    by (simp add: demo_flat rotenc_accept_def)
  have b: "\<exists>st'. s_rotary_encoder_callback 4 (demo_menu\<lparr>current := Some 0\<rparr>) = Inr st' \<and>
      current st' = Some 1"
    using accepted_tick_dispatch [OF acc(1), of "demo_menu\<lparr>current := Some 0\<rparr>" 0]
    by (simp add: demo_flat tick_target_def focus_and_render_def)
  have c: "\<exists>st'. s_rotary_encoder_callback 2
       (demo_menu\<lparr>current := Some 0,
          rotenc := \<lparr>rot_current = 2, rot_prev = 0, rot_delta = 2\<rparr>\<rparr>) = Inr st' \<and>
      current st' = Some 2"
    using accepted_tick_dispatch [OF acc(2), of "demo_menu\<lparr>current := Some 0,
          rotenc := \<lparr>rot_current = 2, rot_prev = 0, rot_delta = 2\<rparr>\<rparr>" 0]
    by (simp add: demo_flat tick_target_def focus_and_render_def)
  show ?thesis using acc a b c by simp
qed


section \<open>Allocation failure\<close>

lemma tiny_menu_fields:
  "static_array_pos tiny_menu = 2 \<and> current tiny_menu = Some 1 \<and> start tiny_menu = Some 0 \<and>
   map (\<lambda>a. (prev (mem tiny_menu a), next (mem tiny_menu a))) [0, 1] =
     [(Some 1, Some 1), (Some 0, Some 0)]"
  unfolding tiny_menu_def tiny_config_def by (simp add: build_eval)

lemma create_None_same: "s_create_new_item cfg st = (None, st') \<Longrightarrow> st' = st"
  by (auto simp: s_create_new_item_def malloc_def split: usage_memory.splits if_splits)

lemma add_item_None_same:
  "s_menu_add_item cfg ttl par cb fl st = Some (None, st') \<Longrightarrow> st' = st"
  by (auto simp: s_menu_add_item_def split: prod.splits option.splits dest: create_None_same)

text \<open>
  Claim C7. When the allocation fails, \<open>s_menu_add_item\<close> returns \<open>NULL\<close> and the state it
  leaves is the state it was called in: no item and no field of the handle is written. In
  the static build the allocation fails once \<open>static_array_pos\<close> has reached the size of the
  array, in the dynamic build when \<open>malloc\<close> returns \<open>NULL\<close>; and whenever the call returns
  \<open>NULL\<close> the state is unchanged.
\<close>

theorem add_item_exhausted:
  "(usage_memory cfg = MENU_USAGE_STATIC_MEMORY \<and> menu_size cfg \<le> unat (static_array_pos st) \<longrightarrow>
      s_menu_add_item cfg ttl par cb fl st = Some (None, st)) \<and>
   (usage_memory cfg = MENU_USAGE_DYNAMIC_MEMORY \<and> heap_avail st = 0 \<longrightarrow>
      s_menu_add_item cfg ttl par cb fl st = Some (None, st)) \<and>
   (\<forall>st'. s_menu_add_item cfg ttl par cb fl st = Some (None, st') \<longrightarrow> st' = st)"
  using add_item_None_same [of cfg ttl par cb fl st]
  by (auto simp: s_menu_add_item_def s_create_new_item_def malloc_def)

theorem add_item_exhausted_witness:
  "build tiny_config [Add_item ''A'' None None 0, Add_item ''B'' None None 0]
     (initial_state tiny_config (\<lambda>_. zero_item) 0) = Some tiny_menu \<and>
   next (mem tiny_menu 0) = Some 1 \<and> next (mem tiny_menu 1) = Some 0 \<and>
   s_menu_add_item tiny_config ''C'' None None 0 tiny_menu = Some (None, tiny_menu)"
proof -
  have a: "build tiny_config [Add_item ''A'' None None 0, Add_item ''B'' None None 0]
     (initial_state tiny_config (\<lambda>_. zero_item) 0) = Some tiny_menu"
    unfolding tiny_menu_def tiny_config_def by (simp add: build_eval)
  have b: "s_menu_add_item tiny_config ''C'' None None 0 tiny_menu = Some (None, tiny_menu)"
    using add_item_exhausted [of tiny_config tiny_menu "''C''" None None 0] tiny_menu_fields
    by (simp add: tiny_config_def)
  show ?thesis using a b tiny_menu_fields by simp
qed

section \<open>Titles\<close>

lemma length_strncpy: "length (strncpy n src) = n"
  by (induction n src rule: strncpy.induct) simp_all

lemma strncpy_long: "NUL \<notin> set src \<Longrightarrow> n \<le> length src \<Longrightarrow> strncpy n src = take n src"
  by (induction n src rule: strncpy.induct) auto

lemma strncpy_short: "length src < n \<Longrightarrow> NUL \<in> set (strncpy n src)"
  by (induction n src rule: strncpy.induct) auto

text \<open>
  Claim C8 (fails on the code). \<open>strncpy(item->title, title, MENU_ITEM_TITLE_LEN)\<close> fills
  the whole buffer of 16 bytes: a title of 16 characters is stored without any NUL byte,
  so the stored title is not terminated.
\<close>

theorem title_not_terminated:
  "\<exists>a st. s_menu_add_item menu_h ''ABCDEFGHIJKLMNOP'' None None 0
              (initial_state menu_h (\<lambda>_. zero_item) MENU_SIZE) = Some (Some a, st) \<and>
          title (mem st a) = ''ABCDEFGHIJKLMNOP'' \<and> NUL \<notin> set (title (mem st a))"
  by (simp add: build_eval MENU_ITEM_TITLE_LEN_def NUL_def eval_nat_numeral)

section \<open>Freshly allocated items\<close>

text \<open>
  Claim C10 (fails on the code). In the dynamic build, the build menu.h selects,
  \<open>s_create_new_item\<close> returns the block as \<open>malloc\<close> left it: with a heap whose blocks
  hold a non-zero \<open>next\<close> and \<open>data\<close>, the item handed out is not the zero item, and its
  \<open>data\<close> is still the old content after \<open>s_menu_add_item\<close> has populated it. The static
  build, on the same memory content, hands out the zero item of \<open>s_menu_items\<close>.
\<close>

theorem malloc_item_not_zero:
  "\<exists>st. s_create_new_item menu_h
           (initial_state menu_h (\<lambda>_. zero_item\<lparr>next := Some 5, data := 0xDEADBEEF\<rparr>) MENU_SIZE) =
            (Some 0, st) \<and>
        mem st 0 = zero_item\<lparr>next := Some 5, data := 0xDEADBEEF\<rparr> \<and> mem st 0 \<noteq> zero_item \<and>
        (\<exists>st'. s_menu_add_item menu_h ''Start'' None None 0
           (initial_state menu_h (\<lambda>_. zero_item\<lparr>next := Some 5, data := 0xDEADBEEF\<rparr>) MENU_SIZE) =
            Some (Some 0, st') \<and> data (mem st' 0) = 0xDEADBEEF) \<and>
        (\<exists>st2. s_create_new_item tiny_config
           (initial_state tiny_config (\<lambda>_. zero_item\<lparr>next := Some 5, data := 0xDEADBEEF\<rparr>) 0) =
            (Some 0, st2) \<and> mem st2 0 = zero_item)"
  by (simp add: build_eval tiny_config_def)

section \<open>Teardown\<close>

lemma free_items_loop_last:
  "item \<notin> set (freed st) \<Longrightarrow> folowing (mem st item) = None \<Longrightarrow>
     free_items_loop item st = Some (Inr st)"
  by (subst free_items_loop.simps) simp

lemma free_items_loop_next:
  "item \<notin> set (freed st) \<Longrightarrow> folowing (mem st item) = Some nxt \<Longrightarrow>
     free_items_loop item st = free_items_loop nxt (st\<lparr>freed := freed st @ [item]\<rparr>)"
  by (subst free_items_loop.simps) (simp add: free_block_def)

lemma demo_freed: "freed demo_menu = []"
  unfolding demo_menu_def demo_calls_def by (simp add: build_eval)

text \<open>
  Claim C9 (fails on the code). The loop of \<open>s_menu_free_items\<close> stops at the item whose
  \<open>folowing\<close> is \<open>NULL\<close> without releasing it: for a menu of one item nothing is
  released, and for the menu of five items the blocks 0 to 3 are released and block 4, the
  last item, is not.
\<close>

theorem teardown_leaks_last:
  "\<exists>a st. s_menu_add_item menu_h ''Start'' None None 0
              (initial_state menu_h (\<lambda>_. zero_item) MENU_SIZE) = Some (Some a, st) \<and>
     s_menu_free_items st = Some (Inr st) \<and> freed st = [] \<and>
     s_menu_free_items demo_menu = Some (Inr (demo_menu\<lparr>freed := [0, 1, 2, 3]\<rparr>)) \<and>
     heap_used demo_menu = 5"
proof -
  have a: "\<exists>a st. s_menu_add_item menu_h ''Start'' None None 0
              (initial_state menu_h (\<lambda>_. zero_item) MENU_SIZE) = Some (Some a, st) \<and>
     s_menu_free_items st = Some (Inr st) \<and> freed st = []"
    by (simp add: build_eval s_menu_free_items_def free_items_loop_last)
  have b: "s_menu_free_items demo_menu = Some (Inr (demo_menu\<lparr>freed := [0, 1, 2, 3]\<rparr>))"
    by (simp add: s_menu_free_items_def demo_flat demo_freed free_items_loop_next
        free_items_loop_last)
  show ?thesis using a b demo_flat(5) by simp
qed


section \<open>The chain builder: rings\<close>

subsection \<open>Fields the chain builder leaves alone\<close>

lemma rechain_link_folowing [simp]: "folowing (rechain_link prv a m x) = folowing (m x)"
  by (simp add: rechain_link_def split: option.splits)

lemma rechain_link_parent [simp]: "parent (rechain_link prv a m x) = parent (m x)"
  by (simp add: rechain_link_def split: option.splits)

lemma rechain_link_other:
  "x \<noteq> a \<Longrightarrow> prv \<noteq> Some x \<Longrightarrow> rechain_link prv a m x = m x"
  by (auto simp: rechain_link_def split: option.splits)

lemma rechain_link_prev_other: "x \<noteq> a \<Longrightarrow> prev (rechain_link prv a m x) = prev (m x)"
  by (auto simp: rechain_link_def split: option.splits)

lemma rechain_link_prev_self: "prv \<noteq> Some a \<Longrightarrow> prev (rechain_link prv a m a) = prv"
  by (auto simp: rechain_link_def split: option.splits)

lemma rechain_link_next_prv: "next (rechain_link (Some p) a m p) = Some a"
  by (simp add: rechain_link_def)

lemma rechain_link_next_other: "prv \<noteq> Some x \<Longrightarrow> next (rechain_link prv a m x) = next (m x)"
  by (auto simp: rechain_link_def split: option.splits)

lemma relink_folowing [simp]: "folowing (relink prv ys m x) = folowing (m x)"
  by (induction ys arbitrary: prv m) simp_all

lemma relink_parent [simp]: "parent (relink prv ys m x) = parent (m x)"
  by (induction ys arbitrary: prv m) simp_all

lemma relink_other:
  "x \<notin> set ys \<Longrightarrow> prv \<noteq> Some x \<Longrightarrow> relink prv ys m x = m x"
  by (induction ys arbitrary: prv m) (auto simp: rechain_link_other)

lemma relink_prev_other: "x \<notin> set ys \<Longrightarrow> prev (relink prv ys m x) = prev (m x)"
  by (induction ys arbitrary: prv m) (auto simp: rechain_link_prev_other)

lemma relink_next_other:
  "x \<notin> set ys \<Longrightarrow> prv \<noteq> Some x \<Longrightarrow> next (relink prv ys m x) = next (m x)"
  by (induction ys arbitrary: prv m) (auto simp: rechain_link_next_other)

lemma chain_cong:
  "(\<And>x. folowing (m' x) = folowing (m x)) \<Longrightarrow> chain m' p xs = chain m p xs"
  by (induction xs arbitrary: p) simp_all

lemma siblings_cong:
  "(\<And>x. parent (m' x) = parent (m x)) \<Longrightarrow> siblings m' xs par = siblings m xs par"
  by (simp add: siblings_def)

subsection \<open>The loop along a chain\<close>

lemma rechain_loop_chain:
  "chain m item xs \<Longrightarrow>
     rechain_loop par first prv item m =
       Some (if first = None then (case siblings m xs par of [] \<Rightarrow> None | y # _ \<Rightarrow> Some y)
             else first,
             if siblings m xs par = [] then prv else Some (last (siblings m xs par)),
             relink prv (siblings m xs par) m)"
proof (induction xs arbitrary: first prv item m)
  case Nil
  then show ?case by (simp add: rechain_loop_None siblings_def)
next
  case (Cons a as)
  from Cons.prems have item: "item = Some a" and ch: "chain m (folowing (m a)) as" by simp_all
  show ?case
  proof (cases "parent (m a) = par")
    case True
    let ?m1 = "rechain_link prv a m"
    have ch1: "chain ?m1 (folowing (?m1 a)) as"
      using ch by (simp add: chain_cong [of ?m1 m])
    have sib: "siblings ?m1 as par = siblings m as par"
      by (simp add: siblings_def)
    have sibs: "siblings m (a # as) par = a # siblings m as par"
      using True by (simp add: siblings_def)
    show ?thesis
      unfolding item using True Cons.IH [OF ch1, of "if first = None then Some a else first" "Some a"]
      by (simp add: rechain_loop_Some sib sibs split: list.splits)
  next
    case False
    have sibs: "siblings m (a # as) par = siblings m as par"
      using False by (simp add: siblings_def)
    show ?thesis
      unfolding item using False Cons.IH [OF ch, of first prv]
      by (simp add: rechain_loop_Some sibs)
  qed
qed

subsection \<open>The ring the chain builder makes\<close>

lemma relink_pairs_Some:
  "distinct (p # ys) \<Longrightarrow> \<forall>(x, y) \<in> set (zip (p # ys) ys). linked (relink (Some p) ys m) x y"
proof (induction ys arbitrary: p m)
  case Nil
  then show ?case by simp
next
  case (Cons y ys)
  let ?m1 = "rechain_link (Some p) y m"
  let ?m' = "relink (Some y) ys ?m1"
  from Cons.prems have d: "distinct (y # ys)" and py: "p \<noteq> y" and p: "p \<notin> set ys"
    and y: "y \<notin> set ys" by auto
  have "next (?m' p) = next (?m1 p)" using p py by (simp add: relink_next_other)
  moreover have "prev (?m' y) = prev (?m1 y)" using y by (simp add: relink_prev_other)
  ultimately have "linked ?m' p y"
    using py by (simp add: linked_def rechain_link_next_prv rechain_link_prev_self)
  then show ?case using Cons.IH [OF d, of ?m1] by simp
qed

lemma relink_pairs_None:
  "distinct ys \<Longrightarrow> \<forall>(x, y) \<in> set (zip ys (tl ys)). linked (relink None ys m) x y"
proof (cases ys)
  case Nil
  then show ?thesis by simp
next
  case (Cons y ys')
  assume "distinct ys"
  then show ?thesis
    unfolding Cons using relink_pairs_Some [of y ys' "rechain_link None y m"] by simp
qed

lemma rechain_close_next:
  "next (rechain_close (Some f) (Some l) m x) = (if x = l then Some f else next (m x))"
  by (simp add: rechain_close_def)

lemma rechain_close_prev:
  "prev (rechain_close (Some f) (Some l) m x) = (if x = f then Some l else prev (m x))"
  by (simp add: rechain_close_def)

lemma rechain_close_folowing [simp]:
  "folowing (rechain_close first prv m x) = folowing (m x)"
  by (simp add: rechain_close_def split: option.splits)

lemma rechain_close_parent [simp]:
  "parent (rechain_close first prv m x) = parent (m x)"
  by (simp add: rechain_close_def split: option.splits)

lemma rechain_close_other:
  "first \<noteq> Some x \<Longrightarrow> prv \<noteq> Some x \<Longrightarrow> rechain_close first prv m x = m x"
  by (auto simp: rechain_close_def split: option.splits)

lemma zip_snoc_shift: "zip (y # ys) (ys @ [z]) = zip (y # ys) ys @ [(last (y # ys), z)]"
  by (induction ys arbitrary: y) simp_all

lemma zip_rotate1:
  "ys \<noteq> [] \<Longrightarrow> zip ys (rotate1 ys) = zip ys (tl ys) @ [(last ys, hd ys)]"
  by (cases ys) (simp_all add: zip_snoc_shift del: last.simps)

lemma zip_tl_neq:
  assumes "distinct ys" and "(x, y) \<in> set (zip ys (tl ys))"
  shows "x \<noteq> last ys \<and> y \<noteq> hd ys \<and> x \<in> set ys \<and> y \<in> set ys"
proof -
  from assms(2) obtain i where i: "i < length (tl ys)" and x: "x = ys ! i" and y: "y = tl ys ! i"
    by (auto simp: set_zip)
  have ne: "ys \<noteq> []" using i by auto
  have y': "y = ys ! Suc i" using y i by (simp add: nth_tl)
  have l: "last ys = ys ! (length ys - 1)" using ne by (simp add: last_conv_nth)
  have h: "hd ys = ys ! 0" using ne by (simp add: hd_conv_nth)
  have "x \<noteq> last ys" unfolding x l using assms(1) i by (simp add: nth_eq_iff_index_eq)
  moreover have "y \<noteq> hd ys"
  proof -
    have "Suc i < length ys" "0 < length ys" using i by auto
    then show ?thesis
      unfolding y' h using assms(1) nth_eq_iff_index_eq [of ys "Suc i" 0] by simp
  qed
  moreover have "x \<in> set ys" unfolding x using i by simp
  moreover have "y \<in> set ys" unfolding y' using i by simp
  ultimately show ?thesis by simp
qed

lemma close_ring:
  assumes "ys \<noteq> []" and "distinct ys"
    and "\<forall>(x, y) \<in> set (zip ys (tl ys)). linked m x y"
  shows "ring (rechain_close (Some (hd ys)) (Some (last ys)) m) ys"
proof -
  let ?m' = "rechain_close (Some (hd ys)) (Some (last ys)) m"
  have old: "linked ?m' x y" if "(x, y) \<in> set (zip ys (tl ys))" for x y
    using zip_tl_neq [OF assms(2) that] assms(3) that
    by (auto simp: linked_def rechain_close_next rechain_close_prev)
  have new: "linked ?m' (last ys) (hd ys)"
    by (simp add: linked_def rechain_close_next rechain_close_prev)
  show ?thesis
    unfolding ring_def list_all_iff zip_rotate1 [OF assms(1)] using old new by auto
qed

lemma s_menu_rechain_chain:
  assumes "chain (mem st) (start st) xs"
  shows "s_menu_rechain par st = Some (st\<lparr>mem := rechained par xs (mem st)\<rparr>)"
proof (cases "siblings (mem st) xs par")
  case Nil
  then show ?thesis
    using rechain_loop_chain [OF assms, of par None None]
    by (simp add: s_menu_rechain_def rechained_def rechain_close_def)
next
  case (Cons y ys)
  then show ?thesis
    using rechain_loop_chain [OF assms, of par None None]
    by (simp add: s_menu_rechain_def rechained_def del: last.simps)
qed

lemma rechained_folowing [simp]: "folowing (rechained par xs m x) = folowing (m x)"
  by (simp add: rechained_def)

lemma rechained_parent [simp]: "parent (rechained par xs m x) = parent (m x)"
  by (simp add: rechained_def)

lemma rechained_other:
  "x \<notin> set (siblings m xs par) \<Longrightarrow> rechained par xs m x = m x"
proof (cases "siblings m xs par = []")
  case True
  then show ?thesis by (simp add: rechained_def)
next
  case False
  assume x: "x \<notin> set (siblings m xs par)"
  have "hd (siblings m xs par) \<noteq> x" "last (siblings m xs par) \<noteq> x"
    using False x hd_in_set last_in_set by metis+
  then show ?thesis
    using False x by (simp add: rechained_def rechain_close_other relink_other)
qed

lemma rechained_ring:
  assumes "distinct xs"
  shows "ring (rechained par xs m) (siblings m xs par)"
proof (cases "siblings m xs par = []")
  case True
  then show ?thesis by (simp add: rechained_def ring_def)
next
  case False
  have d: "distinct (siblings m xs par)" using assms by (simp add: siblings_def)
  show ?thesis
    using False close_ring [OF False d relink_pairs_None [OF d]]
    by (simp add: rechained_def)
qed

subsection \<open>The invariant of construction\<close>

lemma create_Some:
  assumes "config_ok cfg" and "s_create_new_item cfg st = (Some a, st1)"
  shows "a = n_items cfg st \<and> n_items cfg st1 = Suc (n_items cfg st) \<and> mem st1 = mem st \<and>
         current st1 = current st \<and> start st1 = start st"
proof (cases "usage_memory cfg")
  case MENU_USAGE_STATIC_MEMORY
  from assms(2) MENU_USAGE_STATIC_MEMORY
  have lt: "unat (static_array_pos st) < menu_size cfg" and a: "a = unat (static_array_pos st)"
    and st1: "st1 = st\<lparr>static_array_pos := static_array_pos st + 1\<rparr>"
    by (auto simp: s_create_new_item_def split: if_splits)
  have "menu_size cfg < 256"
    using assms(1) MENU_USAGE_STATIC_MEMORY by (simp add: config_ok_def)
  then have "unat (static_array_pos st) + 1 < 256" using lt by simp
  then have "unat (static_array_pos st + 1) = Suc (unat (static_array_pos st))"
    by (simp add: unat_word_ariths)
  then show ?thesis
    using MENU_USAGE_STATIC_MEMORY a st1 by (simp add: n_items_def)
next
  case MENU_USAGE_DYNAMIC_MEMORY
  then show ?thesis
    using assms(2)
    by (auto simp: s_create_new_item_def malloc_def n_items_def split: if_splits)
qed

lemma chain_start: "chain m p [0..<n] \<Longrightarrow> p = (if n = 0 then None else Some 0)"
  by (cases n) (simp_all add: upt_rec)

lemma chain_append_new:
  assumes "chain m p xs" and "distinct xs" and "a \<notin> set xs"
    and "folowing (m' a) = None"
    and "\<And>x. x \<in> set xs \<Longrightarrow> x \<noteq> last xs \<Longrightarrow> folowing (m' x) = folowing (m x)"
    and "xs \<noteq> [] \<Longrightarrow> folowing (m' (last xs)) = Some a"
  shows "chain m' (if xs = [] then Some a else p) (xs @ [a])"
  using assms
proof (induction xs arbitrary: p)
  case Nil
  then show ?case by simp
next
  case (Cons x xs)
  from Cons.prems(1) have p: "p = Some x" and ch: "chain m (folowing (m x)) xs" by simp_all
  show ?case
  proof (cases "xs = []")
    case True
    then show ?thesis using Cons.prems p by simp
  next
    case False
    have x: "folowing (m' x) = folowing (m x)"
    proof -
      have "last xs \<in> set xs" using False by simp
      then have "x \<noteq> last (x # xs)" using False Cons.prems(2) by auto
      then show ?thesis using Cons.prems(5) [of x] by simp
    qed
    have "chain m' (if xs = [] then Some a else folowing (m x)) (xs @ [a])"
    proof (rule Cons.IH [OF ch])
      show "distinct xs" using Cons.prems(2) by simp
      show "a \<notin> set xs" using Cons.prems(3) by simp
      show "folowing (m' a) = None" by (rule Cons.prems(4))
      show "folowing (m' y) = folowing (m y)" if "y \<in> set xs" "y \<noteq> last xs" for y
        using that Cons.prems(5) [of y] False by simp
      show "folowing (m' (last xs)) = Some a" if "xs \<noteq> []"
        using that Cons.prems(6) by simp
    qed
    then show ?thesis using False p x by simp
  qed
qed

lemma ring_cong:
  assumes "\<And>y. y \<in> set ys \<Longrightarrow> prev (m' y) = prev (m y) \<and> next (m' y) = next (m y)"
  shows "ring m' ys = ring m ys"
proof -
  have "linked m' x y = linked m x y" if "(x, y) \<in> set (zip ys (rotate1 ys))" for x y
  proof -
    have "x \<in> set ys" using that by (rule set_zip_leftD)
    moreover have "y \<in> set ys" using set_zip_rightD [OF that] by simp
    ultimately show ?thesis using assms by (simp add: linked_def)
  qed
  then show ?thesis unfolding ring_def list_all_iff by auto
qed

lemma appended_new:
  "parent (appended n ttl par cb fl m n) = par"
  "folowing (appended n ttl par cb fl m n) = None"
  by (auto simp: appended_def add_item_init_def)

lemma appended_old:
  assumes "x \<noteq> n"
  shows "parent (appended n ttl par cb fl m x) = parent (m x)"
    and "prev (appended n ttl par cb fl m x) = prev (m x)"
    and "next (appended n ttl par cb fl m x) = next (m x)"
    and "folowing (appended n ttl par cb fl m x) = (if Suc x = n then Some n else folowing (m x))"
  using assms by (auto simp: appended_def)

lemma add_item_Some:
  assumes ok: "config_ok cfg" and wb: "well_built cfg st"
    and cr: "s_create_new_item cfg st = (Some a, st1)"
  shows "s_menu_add_item cfg ttl par cb fl st =
           Some (Some a,
             st1\<lparr>mem := rechained par (items cfg st @ [a]) (appended a ttl par cb fl (mem st)),
                 current := Some a, start := Some 0\<rparr>)"
proof -
  let ?n = "n_items cfg st"
  let ?M = "appended a ttl par cb fl (mem st)"
  from create_Some [OF ok cr] have a: "a = ?n" and m1: "mem st1 = mem st"
    and c1: "current st1 = current st" and s1: "start st1 = start st" by simp_all
  from wb have ch: "chain (mem st) (start st) [0..<?n]"
    and cur: "current st = (if ?n = 0 then None else Some (?n - 1))"
    by (simp_all add: well_built_def items_def)
  have st: "start st = (if ?n = 0 then None else Some 0)" by (rule chain_start [OF ch])
  let ?A = "(add_item_append a
               (st1\<lparr>mem := (mem st1)(a := add_item_init ttl par cb fl (mem st1 a))\<rparr>))
             \<lparr>current := Some a, start := (if start st1 = None then Some a else start st1)\<rparr>"
  have memA: "mem ?A = ?M"
    using a cur by (auto simp: add_item_append_def appended_def m1 c1)
  have startA: "start ?A = Some 0" using a st by (simp add: s1 add_item_append_def split: option.splits)
  have chA: "chain ?M (if [0..<?n] = [] then Some a else start st) ([0..<?n] @ [a])"
  proof (rule chain_append_new [OF ch])
    show "distinct [0..<?n]" by simp
    show "a \<notin> set [0..<?n]" using a by simp
    show "folowing (?M a) = None" by (rule appended_new)
    show "folowing (?M x) = folowing (mem st x)"
      if "x \<in> set [0..<?n]" "x \<noteq> last [0..<?n]" for x
    proof -
      have "x \<noteq> a" "?n \<noteq> 0" using that a by auto
      moreover have "Suc x \<noteq> a" using that a \<open>?n \<noteq> 0\<close> by (auto simp: last_upt)
      ultimately show ?thesis by (simp add: appended_old)
    qed
    show "folowing (?M (last [0..<?n])) = Some a" if "[0..<?n] \<noteq> []"
    proof -
      have "?n \<noteq> 0" using that by simp
      then have "last [0..<?n] = ?n - 1" by (simp add: last_upt)
      then show ?thesis using a \<open>?n \<noteq> 0\<close> by (simp add: appended_old)
    qed
  qed
  have "chain (mem ?A) (start ?A) (items cfg st @ [a])"
    unfolding memA startA items_def using chA a st by (auto split: if_splits)
  from s_menu_rechain_chain [OF this, of par]
  have "s_menu_rechain par ?A =
          Some (?A\<lparr>mem := rechained par (items cfg st @ [a]) ?M\<rparr>)"
    by (simp only: memA)
  moreover have "?A\<lparr>mem := rechained par (items cfg st @ [a]) ?M\<rparr> =
      st1\<lparr>mem := rechained par (items cfg st @ [a]) ?M, current := Some a, start := Some 0\<rparr>"
    using startA by (simp add: add_item_append_def split: option.splits)
  ultimately show ?thesis
    by (simp add: s_menu_add_item_def cr)
qed

lemma n_items_cong:
  "static_array_pos st' = static_array_pos st \<Longrightarrow> heap_used st' = heap_used st \<Longrightarrow>
     n_items cfg st' = n_items cfg st"
  by (simp add: n_items_def split: usage_memory.splits)

lemma add_item_well_built:
  assumes ok: "config_ok cfg" and wb: "well_built cfg st"
    and cr: "s_create_new_item cfg st = (Some a, st1)"
  shows "well_built cfg
           (st1\<lparr>mem := rechained par (items cfg st @ [a]) (appended a ttl par cb fl (mem st)),
                current := Some a, start := Some 0\<rparr>)"
    (is "well_built cfg ?st3")
proof -
  let ?n = "n_items cfg st"
  let ?xs = "items cfg st"
  let ?M = "appended a ttl par cb fl (mem st)"
  let ?M3 = "rechained par (?xs @ [a]) ?M"
  from create_Some [OF ok cr] have a: "a = ?n" and n1: "n_items cfg st1 = Suc ?n" by simp_all
  have n3: "n_items cfg ?st3 = Suc ?n" using n1 by (simp add: n_items_cong [of ?st3 st1])
  have it3: "items cfg ?st3 = ?xs @ [a]" using n3 a by (simp add: items_def)
  have xs: "?xs = [0..<?n]" by (simp add: items_def)
  from add_item_Some [OF ok wb cr, of ttl par cb fl]
  have res: "s_menu_add_item cfg ttl par cb fl st = Some (Some a, ?st3)" .
  \<comment> \<open>the chain\<close>
  from wb have ch: "chain (mem st) (start st) [0..<?n]"
    by (simp add: well_built_def items_def)
  have st: "start st = (if ?n = 0 then None else Some 0)" by (rule chain_start [OF ch])
  have chM: "chain ?M (Some 0) (?xs @ [a])"
  proof -
    have "chain ?M (if [0..<?n] = [] then Some a else start st) ([0..<?n] @ [a])"
    proof (rule chain_append_new [OF ch])
      show "distinct [0..<?n]" by simp
      show "a \<notin> set [0..<?n]" using a by simp
      show "folowing (?M a) = None" by (rule appended_new)
      show "folowing (?M x) = folowing (mem st x)"
        if "x \<in> set [0..<?n]" "x \<noteq> last [0..<?n]" for x
      proof -
        have "x \<noteq> a" "?n \<noteq> 0" using that a by auto
        moreover have "Suc x \<noteq> a" using that a \<open>?n \<noteq> 0\<close> by (auto simp: last_upt)
        ultimately show ?thesis by (simp add: appended_old)
      qed
      show "folowing (?M (last [0..<?n])) = Some a" if "[0..<?n] \<noteq> []"
      proof -
        have "?n \<noteq> 0" using that by simp
        then have "last [0..<?n] = ?n - 1" by (simp add: last_upt)
        then show ?thesis using a \<open>?n \<noteq> 0\<close> by (simp add: appended_old)
      qed
    qed
    then show ?thesis using a st by (auto simp: xs split: if_splits)
  qed
  have ch3: "chain (mem ?st3) (start ?st3) (items cfg ?st3)"
    unfolding it3 using chM by (simp add: chain_cong [of ?M3 ?M])
  \<comment> \<open>the rings\<close>
  have sib3: "siblings ?M3 ys q = siblings ?M ys q" for ys q
    by (rule siblings_cong) simp
  have d: "distinct (?xs @ [a])" using a by (simp add: items_def)
  have rg: "ring ?M3 (siblings ?M3 (?xs @ [a]) (parent (?M3 b)))" if b: "b \<in> set (?xs @ [a])" for b
  proof (cases "parent (?M b) = par")
    case True
    then show ?thesis using rechained_ring [OF d, of par ?M] by (simp add: sib3)
  next
    case False
    let ?q = "parent (?M b)"
    have ba: "b \<noteq> a" using False by (auto simp: appended_new)
    then have bx: "b \<in> set ?xs" using b by simp
    have qb: "?q = parent (mem st b)" using ba by (simp add: appended_old)
    have sibM: "siblings ?M (?xs @ [a]) ?q = siblings (mem st) ?xs ?q"
    proof -
      have "filter (\<lambda>x. parent (?M x) = ?q) ?xs = filter (\<lambda>x. parent (mem st x) = ?q) ?xs"
        using a by (intro filter_cong) (auto simp: items_def appended_old)
      then show ?thesis using False by (simp add: siblings_def appended_new)
    qed
    have old: "ring (mem st) (siblings (mem st) ?xs ?q)"
      using wb bx unfolding well_built_def list_all_iff qb by blast
    have "ring ?M3 (siblings (mem st) ?xs ?q) = ring (mem st) (siblings (mem st) ?xs ?q)"
    proof (rule ring_cong)
      fix y assume y: "y \<in> set (siblings (mem st) ?xs ?q)"
      then have yx: "y \<in> set ?xs" and yq: "parent (mem st y) = ?q" by (simp_all add: siblings_def)
      have ya: "y \<noteq> a" using yx a by (simp add: items_def)
      have "parent (?M y) \<noteq> par" using yq ya False by (simp add: appended_old)
      then have "y \<notin> set (siblings ?M (?xs @ [a]) par)" using ya by (simp add: siblings_def)
      then have "?M3 y = ?M y" by (rule rechained_other)
      then show "prev (?M3 y) = prev (mem st y) \<and> next (?M3 y) = next (mem st y)"
        using ya by (simp add: appended_old)
    qed
    then show ?thesis using old by (simp add: sib3 sibM)
  qed
  have mem3: "mem ?st3 = ?M3" by simp
  have cur3: "current ?st3 = Some a" by simp
  show ?thesis
    unfolding well_built_def
  proof (intro conjI)
    show "chain (mem ?st3) (start ?st3) (items cfg ?st3)" by (rule ch3)
    show "current ?st3 = (if n_items cfg ?st3 = 0 then None else Some (n_items cfg ?st3 - 1))"
      unfolding n3 cur3 using a by simp
    show "list_all (\<lambda>b. ring (mem ?st3) (siblings (mem ?st3) (items cfg ?st3) (parent (mem ?st3 b))))
            (items cfg ?st3)"
      unfolding it3 list_all_iff mem3 using rg by blast
  qed
qed

lemma set_child_well_built:
  assumes "well_built cfg st"
  shows "well_built cfg (s_menu_set_child item chld st)"
proof (cases item)
  case None
  then show ?thesis using assms by (simp add: s_menu_set_child_def)
next
  case (Some a)
  define m' where
    "m' = (mem st)(a := (mem st a)\<lparr>child := chld, flags := flags (mem st a) OR MENU_FLAG_GOTO_CHILD\<rparr>)"
  have st': "s_menu_set_child item chld st = st\<lparr>mem := m'\<rparr>"
    using Some by (simp add: s_menu_set_child_def m'_def)
  have f: "folowing (m' x) = folowing (mem st x)" "parent (m' x) = parent (mem st x)"
    "prev (m' x) = prev (mem st x)" "next (m' x) = next (mem st x)" for x
    by (simp_all add: m'_def)
  have n: "n_items cfg (st\<lparr>mem := m'\<rparr>) = n_items cfg st" by (rule n_items_cong) simp_all
  have it: "items cfg (st\<lparr>mem := m'\<rparr>) = items cfg st" by (simp add: items_def n)
  have ch: "chain m' p xs = chain (mem st) p xs" for p xs
    by (rule chain_cong) (rule f)
  have sib: "siblings m' xs q = siblings (mem st) xs q" for xs q
    by (rule siblings_cong) (rule f)
  have rg: "ring m' ys = ring (mem st) ys" for ys
    by (rule ring_cong) (simp add: f)
  have sel: "mem (st\<lparr>mem := m'\<rparr>) = m'" "start (st\<lparr>mem := m'\<rparr>) = start st"
    "current (st\<lparr>mem := m'\<rparr>) = current st" by simp_all
  from assms have a1: "chain (mem st) (start st) (items cfg st)"
    and a2: "current st = (if n_items cfg st = 0 then None else Some (n_items cfg st - 1))"
    and a3: "list_all (\<lambda>b. ring (mem st) (siblings (mem st) (items cfg st) (parent (mem st b))))
               (items cfg st)"
    by (simp_all add: well_built_def)
  have "well_built cfg (st\<lparr>mem := m'\<rparr>)"
    unfolding well_built_def it n sel ch sib rg f(2) using a1 a2 a3 by (intro conjI)
  then show ?thesis by (simp only: st')
qed

lemma build_step_well_built:
  assumes "config_ok cfg" and "well_built cfg st"
  shows "\<exists>st'. build_step cfg c st = Some st' \<and> well_built cfg st'"
proof (cases c)
  case (Add_item ttl par cb fl)
  obtain r st1 where cr: "s_create_new_item cfg st = (r, st1)" by (cases "s_create_new_item cfg st")
  show ?thesis
  proof (cases r)
    case None
    then have "st1 = st" using cr create_None_same by blast
    then show ?thesis using cr None assms(2) Add_item by (simp add: s_menu_add_item_def)
  next
    case (Some a)
    show ?thesis
      using add_item_Some [OF assms, of a st1 ttl par cb fl]
        add_item_well_built [OF assms, of a st1 par ttl cb fl] cr Some Add_item
      by simp
  qed
next
  case (Set_child item chld)
  then show ?thesis using set_child_well_built [OF assms(2)] by simp
qed

lemma build_well_built:
  assumes "config_ok cfg" and "well_built cfg st"
  shows "\<exists>st'. build cfg cs st = Some st' \<and> well_built cfg st'"
  using assms(2)
proof (induction cs arbitrary: st)
  case Nil
  then show ?case by simp
next
  case (Cons c cs)
  from build_step_well_built [OF assms(1) Cons.prems, of c]
  obtain st1 where s: "build_step cfg c st = Some st1" and w: "well_built cfg st1" by blast
  from Cons.IH [OF w] show ?case using s by simp
qed

lemma initial_well_built: "well_built cfg (initial_state cfg heap avail)"
  by (cases "usage_memory cfg") (simp_all add: well_built_def initial_state_def n_items_def items_def)


lemma ring_nth:
  assumes "ring m ys" and "i < length ys"
  shows "next (m (ys ! i)) = Some (ys ! (Suc i mod length ys)) \<and>
         prev (m (ys ! (Suc i mod length ys))) = Some (ys ! i)"
proof -
  have "(ys ! i, rotate1 ys ! i) \<in> set (zip ys (rotate1 ys))"
    using assms(2) by (auto simp: set_zip)
  then have "linked m (ys ! i) (rotate1 ys ! i)"
    using assms(1) unfolding ring_def list_all_iff by blast
  then show ?thesis using assms(2) by (simp add: linked_def nth_rotate1)
qed

lemma ring_member:
  assumes "ring m ys" and "x \<in> set ys"
  shows "\<exists>n \<in> set ys. \<exists>p \<in> set ys.
           next (m x) = Some n \<and> prev (m n) = Some x \<and> prev (m x) = Some p \<and> next (m p) = Some x"
proof -
  from assms(2) obtain i where i: "i < length ys" and x: "x = ys ! i"
    by (auto simp: in_set_conv_nth)
  have "x \<in> set (rotate1 ys)" using assms(2) by simp
  then obtain j where "j < length (rotate1 ys)" "rotate1 ys ! j = x"
    unfolding in_set_conv_nth by blast
  then have j: "j < length ys" and xj: "x = rotate1 ys ! j" by simp_all
  have ne: "0 < length ys" using i by (cases ys) simp_all
  have a: "next (m x) = Some (ys ! (Suc i mod length ys)) \<and>
           prev (m (ys ! (Suc i mod length ys))) = Some x"
    using ring_nth [OF assms(1) i] x by simp
  have b: "next (m (ys ! j)) = Some x \<and> prev (m x) = Some (ys ! j)"
    using ring_nth [OF assms(1) j] xj j by (simp add: nth_rotate1)
  have "ys ! (Suc i mod length ys) \<in> set ys" using ne by simp
  moreover have "ys ! j \<in> set ys" using j by simp
  ultimately show ?thesis using a b by blast
qed

lemma well_built_closed:
  assumes "well_built cfg st" and "x < n_items cfg st"
  shows "ring_closed_at (mem st) x"
proof -
  let ?ys = "siblings (mem st) (items cfg st) (parent (mem st x))"
  have xi: "x \<in> set (items cfg st)" using assms(2) by (simp add: items_def)
  then have xy: "x \<in> set ?ys" by (simp add: siblings_def)
  have "ring (mem st) ?ys" using assms(1) xi unfolding well_built_def list_all_iff by blast
  from ring_member [OF this xy] obtain n p where "n \<in> set ?ys" "p \<in> set ?ys"
    "next (mem st x) = Some n" "prev (mem st n) = Some x" "prev (mem st x) = Some p"
    "next (mem st p) = Some x" by blast
  then show ?thesis by (simp add: ring_closed_at_def siblings_def)
qed

lemma well_built_single:
  assumes "well_built cfg st" and "x < n_items cfg st"
    and "siblings (mem st) (items cfg st) (parent (mem st x)) = [x]"
  shows "next (mem st x) = Some x \<and> prev (mem st x) = Some x"
proof -
  have xi: "x \<in> set (items cfg st)" using assms(2) by (simp add: items_def)
  have "ring (mem st) [x]"
    using assms(1) xi assms(3) unfolding well_built_def list_all_iff by force
  then show ?thesis by (simp add: ring_def linked_def)
qed

subsection \<open>Parents of the items\<close>

lemma add_item_parents:
  assumes ok: "config_ok cfg" and wb: "well_built cfg st"
    and ad: "s_menu_add_item cfg ttl par cb fl st = Some (r, st')"
  shows "item_parents cfg st' = item_parents cfg st @ (case r of None \<Rightarrow> [] | Some a \<Rightarrow> [par]) \<and>
         (case r of None \<Rightarrow> True | Some a \<Rightarrow> a = n_items cfg st)"
proof (cases r)
  case None
  then have "st' = st" using ad add_item_None_same by blast
  then show ?thesis using None by simp
next
  case (Some a)
  obtain r1 st1 where cr: "s_create_new_item cfg st = (r1, st1)"
    by (cases "s_create_new_item cfg st")
  have r1: "r1 = Some a"
    using ad cr Some by (auto simp: s_menu_add_item_def split: option.splits)
  let ?M = "appended a ttl par cb fl (mem st)"
  let ?st3 = "st1\<lparr>mem := rechained par (items cfg st @ [a]) ?M, current := Some a, start := Some 0\<rparr>"
  from add_item_Some [OF ok wb cr [unfolded r1], of ttl par cb fl] ad Some
  have st': "st' = ?st3" by simp
  from create_Some [OF ok cr [unfolded r1]]
  have a: "a = n_items cfg st" and n1: "n_items cfg st1 = Suc (n_items cfg st)" by simp_all
  have n3: "n_items cfg ?st3 = Suc (n_items cfg st)"
    using n1 by (simp add: n_items_cong [of ?st3 st1])
  have it: "items cfg ?st3 = items cfg st @ [a]" using n3 a by (simp add: items_def)
  have old: "parent (?M x) = parent (mem st x)" if "x \<in> set (items cfg st)" for x
    using that a by (simp add: items_def appended_old)
  have "item_parents cfg ?st3 = item_parents cfg st @ [par]"
    unfolding item_parents_def it using old by (simp add: appended_new)
  then show ?thesis using Some st' a by simp
qed

lemma set_child_parents:
  "item_parents cfg (s_menu_set_child item chld st) = item_parents cfg st"
proof (cases item)
  case None
  then show ?thesis by (simp add: s_menu_set_child_def)
next
  case (Some a)
  have "n_items cfg (s_menu_set_child item chld st) = n_items cfg st"
    by (rule n_items_cong) (simp_all add: s_menu_set_child_def split: option.splits)
  then show ?thesis
    using Some by (simp add: item_parents_def items_def s_menu_set_child_def)
qed

lemma build_parents:
  assumes ok: "config_ok cfg" and wb: "well_built cfg st" and b: "build cfg cs st = Some st'"
  shows "\<exists>ps. item_parents cfg st' = item_parents cfg st @ ps \<and>
              length ps \<le> length (call_parents cs) \<and>
              (length ps = length (call_parents cs) \<longrightarrow> ps = call_parents cs)"
  using wb b
proof (induction cs arbitrary: st)
  case Nil
  then show ?case by simp
next
  case (Cons c cs)
  from build_step_well_built [OF ok Cons.prems(1), of c]
  obtain st1 where s: "build_step cfg c st = Some st1" and w1: "well_built cfg st1" by blast
  from Cons.prems(2) s have b1: "build cfg cs st1 = Some st'" by simp
  from Cons.IH [OF w1 b1] obtain ps where
    ps: "item_parents cfg st' = item_parents cfg st1 @ ps"
    "length ps \<le> length (call_parents cs)"
    "length ps = length (call_parents cs) \<longrightarrow> ps = call_parents cs" by blast
  have "\<exists>d. item_parents cfg st1 = item_parents cfg st @ d \<and>
          length d \<le> length (call_parents [c]) \<and>
          (length d = length (call_parents [c]) \<longrightarrow> d = call_parents [c])"
  proof (cases c)
    case (Add_item ttl par cb fl)
    from s Add_item obtain r where "s_menu_add_item cfg ttl par cb fl st = Some (r, st1)"
      by (auto split: option.splits)
    from add_item_parents [OF ok Cons.prems(1) this] show ?thesis
      using Add_item by (cases r) simp_all
  next
    case (Set_child item chld)
    then show ?thesis using s set_child_parents [of cfg item chld st] by auto
  qed
  then obtain d where d: "item_parents cfg st1 = item_parents cfg st @ d"
    "length d \<le> length (call_parents [c])"
    "length d = length (call_parents [c]) \<longrightarrow> d = call_parents [c]" by blast
  have cp: "call_parents (c # cs) = call_parents [c] @ call_parents cs"
    by (cases c) simp_all
  have "item_parents cfg st' = item_parents cfg st @ (d @ ps)" using ps(1) d(1) by simp
  moreover have "length (d @ ps) \<le> length (call_parents (c # cs))"
    using ps(2) d(2) unfolding cp by simp
  moreover have "d @ ps = call_parents (c # cs)"
    if "length (d @ ps) = length (call_parents (c # cs))"
  proof -
    have "length d = length (call_parents [c])" "length ps = length (call_parents cs)"
      using that ps(2) d(2) unfolding cp by simp_all
    then show ?thesis using ps(3) d(3) unfolding cp by simp
  qed
  ultimately show ?case by blast
qed

lemma built_parents:
  assumes "config_ok cfg"
    and "build cfg calls (initial_state cfg heap avail) = Some st"
    and "n_items cfg st = length (call_parents calls)"
  shows "item_parents cfg st = call_parents calls"
proof -
  have i: "item_parents cfg (initial_state cfg heap avail) = []"
    by (cases "usage_memory cfg")
      (simp_all add: item_parents_def items_def n_items_def initial_state_def)
  from build_parents [OF assms(1) initial_well_built assms(2)] obtain ps where
    ps: "item_parents cfg st = ps" "length ps = length (call_parents calls) \<longrightarrow> ps = call_parents calls"
    unfolding i by auto
  have "length (item_parents cfg st) = n_items cfg st" by (simp add: item_parents_def items_def)
  then show ?thesis using ps assms(3) by simp
qed

subsection \<open>Ring closure and ring order\<close>

text \<open>
  Claim C1. After any sequence of \<open>s_menu_add_item\<close> and \<open>s_menu_set_child\<close> calls from
  program start (hence after every successful \<open>s_menu_add_item\<close> call and the
  \<open>s_menu_rechain\<close> call it makes), the construction has returned, and every item \<open>x\<close>
  handed out so far has non-\<open>NULL\<close> \<open>next\<close> and \<open>prev\<close> with \<open>x.next.prev == x\<close> and
  \<open>x.prev.next == x\<close>, both neighbours sharing the parent of \<open>x\<close>; an item that is alone
  with its parent has \<open>prev == next == x\<close>. This holds in both storage modes, for a static
  array of fewer than 256 slots.
\<close>

theorem rings_closed:
  assumes "config_ok cfg"
  shows "\<exists>st. build cfg calls (initial_state cfg heap avail) = Some st \<and>
           (\<forall>x < n_items cfg st.
              ring_closed_at (mem st) x \<and>
              (siblings (mem st) (items cfg st) (parent (mem st x)) = [x] \<longrightarrow>
                 next (mem st x) = Some x \<and> prev (mem st x) = Some x))"
proof -
  from build_well_built [OF assms initial_well_built, of calls heap avail]
  obtain st where b: "build cfg calls (initial_state cfg heap avail) = Some st"
    and w: "well_built cfg st" by blast
  show ?thesis using b well_built_closed [OF w] well_built_single [OF w] by blast
qed

text \<open>
  Claim C2. After any construction from program start, the items are on the build-order
  chain in creation order; when every \<open>s_menu_add_item\<close> call succeeded, the \<open>n\<close>-th item
  carries the parent passed by the \<open>n\<close>-th call; and the ring of every parent \<open>P\<close> follows that order: whenever
  the items with parent \<open>P\<close> are, in creation order, exactly \<open>A\<close>, \<open>B\<close>, \<open>C\<close>, then forward
  from \<open>A\<close> the ring reads \<open>A\<close>, \<open>B\<close>, \<open>C\<close>, \<open>A\<close> and backward it reads \<open>A\<close>, \<open>C\<close>, \<open>B\<close>,
  \<open>A\<close>. In general the \<open>i\<close>-th item with parent \<open>P\<close> has the \<open>(i+1)\<close>-th (cyclically) as
  \<open>next\<close>, and is the \<open>prev\<close> of that item.
\<close>

theorem ring_order_is_build_order:
  assumes "config_ok cfg"
  shows "\<exists>st. build cfg calls (initial_state cfg heap avail) = Some st \<and>
           chain (mem st) (start st) (items cfg st) \<and>
           (n_items cfg st = length (call_parents calls) \<longrightarrow>
              item_parents cfg st = call_parents calls) \<and>
           (\<forall>P A B C. siblings (mem st) (items cfg st) P = [A, B, C] \<longrightarrow>
              next (mem st A) = Some B \<and> next (mem st B) = Some C \<and> next (mem st C) = Some A \<and>
              prev (mem st A) = Some C \<and> prev (mem st C) = Some B \<and> prev (mem st B) = Some A) \<and>
           (\<forall>P i. i < length (siblings (mem st) (items cfg st) P) \<longrightarrow>
              next (mem st (siblings (mem st) (items cfg st) P ! i)) =
                Some (siblings (mem st) (items cfg st) P !
                        (Suc i mod length (siblings (mem st) (items cfg st) P))) \<and>
              prev (mem st (siblings (mem st) (items cfg st) P !
                        (Suc i mod length (siblings (mem st) (items cfg st) P)))) =
                Some (siblings (mem st) (items cfg st) P ! i))"
proof -
  from build_well_built [OF assms initial_well_built, of calls heap avail]
  obtain st where b: "build cfg calls (initial_state cfg heap avail) = Some st"
    and w: "well_built cfg st" by blast
  have rg: "ring (mem st) (siblings (mem st) (items cfg st) P)" for P
  proof (cases "siblings (mem st) (items cfg st) P")
    case Nil
    then show ?thesis by (simp add: ring_def)
  next
    case (Cons y ys)
    then have "y \<in> set (siblings (mem st) (items cfg st) P)" by simp
    then have "y \<in> set (items cfg st)" "parent (mem st y) = P" by (simp_all add: siblings_def)
    then show ?thesis using w unfolding well_built_def list_all_iff by blast
  qed
  have three: "next (mem st A) = Some B \<and> next (mem st B) = Some C \<and> next (mem st C) = Some A \<and>
              prev (mem st A) = Some C \<and> prev (mem st C) = Some B \<and> prev (mem st B) = Some A"
    if "siblings (mem st) (items cfg st) P = [A, B, C]" for P A B C
    using rg [of P] that by (simp add: ring_def linked_def)
  have ch: "chain (mem st) (start st) (items cfg st)" using w by (simp add: well_built_def)
  have ps: "item_parents cfg st = call_parents calls"
    if "n_items cfg st = length (call_parents calls)"
    using built_parents [OF assms b that] .
  show ?thesis using b ch ps three ring_nth [OF rg] by blast
qed

lemma config_ok_menu_h: "config_ok menu_h"
  by (simp add: config_ok_def menu_h_def MENU_USAGE_MEMORY_def)

lemma demo_items: "n_items menu_h demo_menu = 5" "items menu_h demo_menu = [0, 1, 2, 3, 4]"
  by (simp_all add: items_def n_items_def menu_h_def MENU_USAGE_MEMORY_def demo_flat upt_rec)

lemma demo_roots: "siblings (mem demo_menu) (items menu_h demo_menu) None = [0, 1, 2]"
  by (simp add: demo_items siblings_def demo_flat)

theorem rings_closed_witness:
  "config_ok menu_h \<and>
   build menu_h demo_calls (initial_state menu_h (\<lambda>_. zero_item) MENU_SIZE) = Some demo_menu \<and>
   n_items menu_h demo_menu = 5 \<and>
   ring_closed_at (mem demo_menu) 0 \<and> ring_closed_at (mem demo_menu) 1 \<and>
   ring_closed_at (mem demo_menu) 2 \<and> ring_closed_at (mem demo_menu) 3 \<and>
   ring_closed_at (mem demo_menu) 4 \<and>
   (\<exists>st. build menu_h [Add_item ''Start'' None None 0]
            (initial_state menu_h (\<lambda>_. zero_item) MENU_SIZE) = Some st \<and>
         next (mem st 0) = Some 0 \<and> prev (mem st 0) = Some 0)"
proof -
  from rings_closed [OF config_ok_menu_h, of demo_calls "\<lambda>_. zero_item" MENU_SIZE]
  have a: "\<forall>x < n_items menu_h demo_menu. ring_closed_at (mem demo_menu) x"
    unfolding demo_built by simp
  have b: "ring_closed_at (mem demo_menu) 0" "ring_closed_at (mem demo_menu) 1"
    "ring_closed_at (mem demo_menu) 2" "ring_closed_at (mem demo_menu) 3"
    "ring_closed_at (mem demo_menu) 4"
    using a unfolding demo_items by simp_all
  let ?one = "build menu_h [Add_item ''Start'' None None 0]
                (initial_state menu_h (\<lambda>_. zero_item) MENU_SIZE)"
  from rings_closed [OF config_ok_menu_h, of "[Add_item ''Start'' None None 0]"
      "\<lambda>_. zero_item" MENU_SIZE]
  obtain st where s: "?one = Some st"
    and c: "\<forall>x < n_items menu_h st.
              siblings (mem st) (items menu_h st) (parent (mem st x)) = [x] \<longrightarrow>
                 next (mem st x) = Some x \<and> prev (mem st x) = Some x"
    by blast
  have "\<exists>st'. ?one = Some st' \<and> n_items menu_h st' = 1 \<and>
          siblings (mem st') (items menu_h st') (parent (mem st' 0)) = [0]"
    by (simp add: build_eval n_items_def items_def siblings_def)
  then have "n_items menu_h st = 1"
    "siblings (mem st) (items menu_h st) (parent (mem st 0)) = [0]"
    using s by simp_all
  then have "next (mem st 0) = Some 0 \<and> prev (mem st 0) = Some 0" using c by simp
  then show ?thesis using b s config_ok_menu_h demo_built demo_items(1) by blast
qed

theorem ring_order_is_build_order_witness:
  "config_ok menu_h \<and>
   build menu_h demo_calls (initial_state menu_h (\<lambda>_. zero_item) MENU_SIZE) = Some demo_menu \<and>
   call_parents demo_calls = [None, None, None, Some 2, Some 2] \<and>
   item_parents menu_h demo_menu = [None, None, None, Some 2, Some 2] \<and>
   siblings (mem demo_menu) (items menu_h demo_menu) None = [0, 1, 2] \<and>
   next (mem demo_menu 0) = Some 1 \<and> next (mem demo_menu 1) = Some 2 \<and>
   next (mem demo_menu 2) = Some 0 \<and> prev (mem demo_menu 0) = Some 2 \<and>
   prev (mem demo_menu 2) = Some 1 \<and> prev (mem demo_menu 1) = Some 0"
proof -
  have cp: "call_parents demo_calls = [None, None, None, Some 2, Some 2]"
    by (simp add: demo_calls_def)
  from ring_order_is_build_order [OF config_ok_menu_h, of demo_calls "\<lambda>_. zero_item" MENU_SIZE]
  have "n_items menu_h demo_menu = length (call_parents demo_calls) \<longrightarrow>
          item_parents menu_h demo_menu = call_parents demo_calls"
    unfolding demo_built by simp
  then have ip: "item_parents menu_h demo_menu = [None, None, None, Some 2, Some 2]"
    using cp demo_items(1) by simp
  from ring_order_is_build_order [OF config_ok_menu_h, of demo_calls "\<lambda>_. zero_item" MENU_SIZE]
  have "\<forall>P A B C. siblings (mem demo_menu) (items menu_h demo_menu) P = [A, B, C] \<longrightarrow>
              next (mem demo_menu A) = Some B \<and> next (mem demo_menu B) = Some C \<and>
              next (mem demo_menu C) = Some A \<and> prev (mem demo_menu A) = Some C \<and>
              prev (mem demo_menu C) = Some B \<and> prev (mem demo_menu B) = Some A"
    unfolding demo_built by simp
  then have "next (mem demo_menu 0) = Some 1 \<and> next (mem demo_menu 1) = Some 2 \<and>
   next (mem demo_menu 2) = Some 0 \<and> prev (mem demo_menu 0) = Some 2 \<and>
   prev (mem demo_menu 2) = Some 1 \<and> prev (mem demo_menu 1) = Some 0"
    using demo_roots by blast
  then show ?thesis using config_ok_menu_h demo_built demo_roots cp ip by blast
qed


section \<open>Titles: what is stored in general\<close>

text \<open>The stored title is the first 16 bytes of the input, padded with NUL when the input is
  shorter; it holds a NUL exactly when the input has fewer than 16 characters.\<close>

lemma rechain_link_title [simp]: "title (rechain_link prv a m x) = title (m x)"
  by (simp add: rechain_link_def split: option.splits)

lemma relink_title [simp]: "title (relink prv ys m x) = title (m x)"
  by (induction ys arbitrary: prv m) simp_all

lemma rechain_close_title [simp]: "title (rechain_close first prv m x) = title (m x)"
  by (simp add: rechain_close_def split: option.splits)

lemma rechained_title [simp]: "title (rechained par xs m x) = title (m x)"
  by (simp add: rechained_def)

lemma appended_title: "title (appended n ttl par cb fl m n) = strncpy MENU_ITEM_TITLE_LEN ttl"
  by (auto simp: appended_def add_item_init_def)

lemma add_item_title:
  assumes "config_ok cfg" and "well_built cfg st"
    and "s_menu_add_item cfg ttl par cb fl st = Some (Some a, st')"
  shows "title (mem st' a) = strncpy MENU_ITEM_TITLE_LEN ttl"
proof -
  obtain r1 st1 where cr: "s_create_new_item cfg st = (r1, st1)"
    by (cases "s_create_new_item cfg st")
  have r1: "r1 = Some a"
    using assms(3) cr by (auto simp: s_menu_add_item_def split: option.splits)
  from add_item_Some [OF assms(1,2) cr [unfolded r1], of ttl par cb fl] assms(3)
  show ?thesis by (auto simp: appended_title)
qed

lemma strncpy_terminated_iff:
  "NUL \<notin> set src \<Longrightarrow> (NUL \<in> set (strncpy n src)) = (length src < n)"
  by (induction n src rule: strncpy.induct) auto

lemma stored_title:
  assumes "config_ok cfg" and "well_built cfg st"
    and "s_menu_add_item cfg ttl par cb fl st = Some (Some a, st')"
    and "NUL \<notin> set ttl"
  shows "length (title (mem st' a)) = MENU_ITEM_TITLE_LEN \<and>
         (MENU_ITEM_TITLE_LEN \<le> length ttl \<longrightarrow>
            title (mem st' a) = take MENU_ITEM_TITLE_LEN ttl) \<and>
         (NUL \<in> set (title (mem st' a))) = (length ttl < MENU_ITEM_TITLE_LEN)"
  using add_item_title [OF assms(1,2,3)] assms(4)
  by (simp add: length_strncpy strncpy_long strncpy_terminated_iff)

section \<open>Teardown: what is released in general\<close>

text \<open>On a constructed menu of \<open>n > 0\<close> items the teardown returns without a fault, having
  released the blocks \<open>0\<close> to \<open>n - 2\<close> once each, in order; block \<open>n - 1\<close> is not released.\<close>

lemma free_items_loop_chain:
  assumes "chain (mem st) (Some a) (a # as)" and "distinct (a # as)"
    and "set (freed st) \<inter> set (a # as) = {}"
  shows "free_items_loop a st = Some (Inr (st\<lparr>freed := freed st @ butlast (a # as)\<rparr>))"
  using assms
proof (induction as arbitrary: a st)
  case Nil
  then show ?case by (simp add: free_items_loop_last)
next
  case (Cons b bs)
  let ?st1 = "st\<lparr>freed := freed st @ [a]\<rparr>"
  from Cons.prems(1) have f: "folowing (mem st a) = Some b"
    and ch: "chain (mem ?st1) (Some b) (b # bs)" by simp_all
  have a: "a \<notin> set (freed st)" using Cons.prems(3) by auto
  have d: "distinct (b # bs)" using Cons.prems(2) by simp
  have i: "set (freed ?st1) \<inter> set (b # bs) = {}" using Cons.prems(2,3) by auto
  have "free_items_loop a st = free_items_loop b ?st1"
    by (rule free_items_loop_next [OF a f])
  then show ?case using Cons.IH [OF ch d i] by simp
qed

lemma teardown_all_but_last:
  assumes "well_built cfg st" and "0 < n_items cfg st" and "freed st = []"
  shows "s_menu_free_items st = Some (Inr (st\<lparr>freed := [0..<n_items cfg st - 1]\<rparr>))"
proof -
  let ?n = "n_items cfg st"
  from assms(1) have ch: "chain (mem st) (start st) [0..<?n]"
    by (simp add: well_built_def items_def)
  have s: "start st = Some 0" using chain_start [OF ch] assms(2) by simp
  have up: "[0..<?n] = 0 # [1..<?n]" using assms(2) by (simp add: upt_rec)
  have "free_items_loop 0 st = Some (Inr (st\<lparr>freed := freed st @ butlast (0 # [1..<?n])\<rparr>))"
  proof (rule free_items_loop_chain)
    show "chain (mem st) (Some 0) (0 # [1..<?n])" using ch s up by simp
    show "distinct (0 # [1..<?n])" by simp
    show "set (freed st) \<inter> set (0 # [1..<?n]) = {}" using assms(3) by simp
  qed
  moreover have "butlast (0 # [1..<?n]) = [0..<?n - 1]"
  proof -
    have "butlast [0..<?n] = [0..<?n - 1]" by (cases ?n) simp_all
    then show ?thesis by (simp only: up)
  qed
  ultimately show ?thesis using s assms(3) by (simp add: s_menu_free_items_def)
qed

section \<open>The chain builder of the draft menu03.c\<close>

text \<open>
  The earlier \<open>s_menu_rechain\<close> of menu03.c cannot build a menu: on the first
  \<open>s_menu_add_item\<close>, when the new item is the whole chain, the loop body never runs and
  \<open>first->prev\<close> dereferences \<open>NULL\<close>; and on a longer chain the loop stops before the
  newest item, which is left out of its ring. menu.c replaced the loop by \<open>while (item)\<close>
  and guarded the closing writes.
\<close>

lemma rechain03_loop_last:
  "folowing (m a) = None \<Longrightarrow> rechain03_loop par first prv (Some a) m = Some (Inr (first, prv, m))"
  by (subst rechain03_loop.simps) simp

lemma rechain03_loop_next:
  "folowing (m a) = Some nxt \<Longrightarrow>
     rechain03_loop par first prv (Some a) m =
       (if parent (m a) = par
        then rechain03_loop par (if first = None then Some a else first) (Some a)
               (folowing (rechain03_link prv a m a)) (rechain03_link prv a m)
        else rechain03_loop par first prv (Some nxt) m)"
  by (subst rechain03_loop.simps) simp

lemma draft03_first_add_faults:
  "start st = Some a \<Longrightarrow> folowing (mem st a) = None \<Longrightarrow>
     s_menu_rechain03 par st = Some (Inl NullDereference)"
  by (simp add: s_menu_rechain03_def rechain03_loop_last)

lemma draft03_skips_newest:
  "\<exists>st'. s_menu_rechain03 (Some 2) demo_menu = Some (Inr st') \<and>
      next (mem st' 3) = Some 3 \<and> prev (mem st' 3) = Some 3"
  by (simp add: s_menu_rechain03_def rechain03_loop_last rechain03_loop_next rechain03_link_def
      demo_flat)

end
